theory Spec2Isabelle
  imports Main "HOL-Library.AList"
begin

section \<open>Python values and objects\<close>

text \<open>
  The module \<^verbatim>\<open>haystack/preview/pipeline.py\<close> adds document stores to the pipelines of
  the Canals library. Objects are referred to by address, since the properties of interest
  depend on which objects are shared. A Python \<^verbatim>\<open>dict\<close> keeps its keys in insertion
  order and assigning to an existing key keeps the key's position: it is an association
  list with \<^const>\<open>map_of\<close> for lookup, \<^const>\<open>AList.update\<close> for assignment and
  \<^const>\<open>AList.delete\<close> for \<^verbatim>\<open>del\<close>.
\<close>

type_synonym ref = nat

type_synonym 'a dict = "(string \<times> 'a) list"

text \<open>
  The exceptions that the module raises or lets through. \<^verbatim>\<open>ValueError\<close> carries which
  of its messages was built:
  \<^item> \<open>AlreadyConnected\<close>: \<^verbatim>\<open>Component '...' is already connected to Document Store '...'.\<close>
  \<^item> \<open>NeedsDocumentStore\<close>: \<^verbatim>\<open>Component '...' needs a DocumentStore.\<close>
  \<^item> \<open>DoesNotSupportDocumentStores\<close>: \<^verbatim>\<open>Component '...' doesn't support DocumentStores.\<close>
  \<^item> \<open>OtherMessage\<close>: a \<^verbatim>\<open>ValueError\<close> of a collaborator (Canals raises one for a
    component name that is already taken).
  \<open>PipelineValidationError\<close> and \<open>OtherError\<close> are only ever raised by collaborators.
\<close>

datatype message =
    AlreadyConnected
  | NeedsDocumentStore
  | DoesNotSupportDocumentStores
  | OtherMessage

datatype error =
    NotADocumentStoreError
  | NoSuchDocumentStoreError
  | ValueError message
  | KeyError
  | PipelineValidationError
  | OtherError

text \<open>
  A component instance: \<open>aware\<close> is \<^verbatim>\<open>isinstance(instance, DocumentStoreAwareMixin)\<close>,
  \<open>document_store\<close> the attribute of that name (\<open>None\<close> when it is unset; a store object
  is truthy) and \<open>document_store_name\<close> the attribute \<^verbatim>\<open>_document_store_name\<close>. The
  attributes are plain ones: an assignment to them stores the value and nothing else.
\<close>

record component =
  aware :: bool
  document_store :: "ref option"
  document_store_name :: "string option"

text \<open>
  A store object: \<open>haystack_document_store\<close> is what
  \<^verbatim>\<open>getattr(document_store, "__haystack_document_store__", False)\<close> reads, and \<open>to_dict\<close>
  the dictionary that the object's \<^verbatim>\<open>to_dict()\<close> returns (a new dictionary at each call).
\<close>

record 'v store =
  haystack_document_store :: bool
  to_dict :: "'v dict"

text \<open>
  A \<^verbatim>\<open>Pipeline\<close> object: \<open>graph\<close> is the state of the Canals pipeline it extends,
  \<open>document_stores_connections\<close> the address of the dictionary
  \<^verbatim>\<open>_document_stores_connections\<close> (component name to store name) and \<open>document_stores\<close>
  the dictionary \<^verbatim>\<open>_document_stores\<close> (store name to store object).
\<close>

record 'g pipeline =
  graph :: 'g
  document_stores_connections :: ref
  document_stores :: "ref dict"

text \<open>
  The objects of the program. Addresses below \<open>next_dict\<close>, \<open>next_component\<close> and
  \<open>next_store\<close> are the ones in use; a new object takes the next address.
\<close>

record ('g, 'v) heap =
  pipelines_h :: "ref \<Rightarrow> 'g pipeline"
  dicts_h :: "ref \<Rightarrow> string dict"
  next_dict :: ref
  components_h :: "ref \<Rightarrow> component"
  next_component :: ref
  stores_h :: "ref \<Rightarrow> 'v store"
  next_store :: ref

text \<open>Truthiness of an \<^verbatim>\<open>Optional[str]\<close>: \<^verbatim>\<open>None\<close> and the empty string are falsy.\<close>

fun truthy :: "string option \<Rightarrow> bool" where
  "truthy None = False"
| "truthy (Some s) = (s \<noteq> [])"

section \<open>The class Pipeline\<close>

text \<open>
  A method returns the exception it raised, or its value, together with the heap it
  leaves behind: what was written before an exception stays written.
\<close>

definition add_document_store ::
  "ref \<Rightarrow> string \<Rightarrow> ref \<Rightarrow> ('g, 'v) heap \<Rightarrow> (error + unit) \<times> ('g, 'v) heap" where
  "add_document_store self name document_store_arg h =
     (if \<not> haystack_document_store (stores_h h document_store_arg)
      then (Inl NotADocumentStoreError, h)
      else (Inr (),
        h\<lparr>pipelines_h := (pipelines_h h)
          (self := (pipelines_h h self)
             \<lparr>document_stores :=
                AList.update name document_store_arg (document_stores (pipelines_h h self))\<rparr>)\<rparr>))"

definition list_document_stores :: "ref \<Rightarrow> ('g, 'v) heap \<Rightarrow> string list" where
  "list_document_stores self h = map fst (document_stores (pipelines_h h self))"

definition get_document_store :: "ref \<Rightarrow> string \<Rightarrow> ('g, 'v) heap \<Rightarrow> error + ref" where
  "get_document_store self name h =
     (case map_of (document_stores (pipelines_h h self)) name of
        None \<Rightarrow> Inl NoSuchDocumentStoreError
      | Some s \<Rightarrow> Inr s)"

text \<open>
  \<^verbatim>\<open>super().add_component(name, instance)\<close>: the method of the Canals pipeline is the
  parameter \<open>super_add_component\<close>, which gives the new graph or the exception.
\<close>

definition register_component ::
  "(string \<Rightarrow> ref \<Rightarrow> 'g \<Rightarrow> error + 'g) \<Rightarrow> ref \<Rightarrow> string \<Rightarrow> ref \<Rightarrow> ('g, 'v) heap
     \<Rightarrow> (error + unit) \<times> ('g, 'v) heap" where
  "register_component super_add_component self name inst h =
     (case super_add_component name inst (graph (pipelines_h h self)) of
        Inl e \<Rightarrow> (Inl e, h)
      | Inr g \<Rightarrow>
          (Inr (), h\<lparr>pipelines_h := (pipelines_h h)(self := (pipelines_h h self)\<lparr>graph := g\<rparr>)\<rparr>))"

text \<open>
  Lines 105 to 108: the three assignments that bind the store named \<open>n\<close>, the object \<open>s\<close>,
  to the component.
\<close>

definition connect_store ::
  "ref \<Rightarrow> string \<Rightarrow> ref \<Rightarrow> string \<Rightarrow> ref \<Rightarrow> ('g, 'v) heap \<Rightarrow> ('g, 'v) heap" where
  "connect_store self name inst n s h =
     (let d = document_stores_connections (pipelines_h h self) in
      h\<lparr>dicts_h := (dicts_h h)(d := AList.update name n (dicts_h h d)),
        components_h := (components_h h)
          (inst := (components_h h inst)\<lparr>document_store := Some s, document_store_name := Some n\<rparr>)\<rparr>)"

text \<open>
  \<^verbatim>\<open>Pipeline.add_component\<close>. The message of the first \<^verbatim>\<open>ValueError\<close> reads
  \<^verbatim>\<open>self._document_stores_connections[name]\<close>, which raises \<^verbatim>\<open>KeyError\<close> when the
  name has no entry. The test \<^verbatim>\<open>document_store not in self._document_stores\<close> is the
  lookup that line 107 repeats; \<^verbatim>\<open>None\<close> is no key of the dictionary.
\<close>

definition add_component ::
  "(string \<Rightarrow> ref \<Rightarrow> 'g \<Rightarrow> error + 'g) \<Rightarrow> ref \<Rightarrow> string \<Rightarrow> ref \<Rightarrow> string option
     \<Rightarrow> ('g, 'v) heap \<Rightarrow> (error + unit) \<times> ('g, 'v) heap" where
  "add_component super_add_component self name inst document_store_arg h =
     (let p = pipelines_h h self; c = components_h h inst in
      if aware c then
        (if truthy document_store_arg \<and> document_store c \<noteq> None then
           (case map_of (dicts_h h (document_stores_connections p)) name of
              None \<Rightarrow> (Inl KeyError, h)
            | Some connected \<Rightarrow> (Inl (ValueError AlreadyConnected), h))
         else if \<not> truthy document_store_arg \<and> document_store c = None then
           (Inl (ValueError NeedsDocumentStore), h)
         else
           (case document_store_arg of
              None \<Rightarrow> (Inl NoSuchDocumentStoreError, h)
            | Some n \<Rightarrow>
                (case map_of (document_stores p) n of
                   None \<Rightarrow> (Inl NoSuchDocumentStoreError, h)
                 | Some s \<Rightarrow>
                     register_component super_add_component self name inst
                       (if document_store c = None then connect_store self name inst n s h
                        else h))))
      else if truthy document_store_arg then
        (Inl (ValueError DoesNotSupportDocumentStores), h)
      else register_component super_add_component self name inst h)"

section \<open>marshal_pipelines\<close>

text \<open>
  The document that \<^verbatim>\<open>marshal_pipelines\<close> returns and \<^verbatim>\<open>unmarshal_pipelines\<close> reads:
  \<open>canals_data\<close> is what Canals keeps beside the pipelines, \<open>pipelines_key\<close> the
  dictionary under \<^verbatim>\<open>"pipelines"\<close> and \<open>stores_key\<close> the one under \<^verbatim>\<open>"stores"\<close>. A
  pipeline's entry has the data of Canals, \<open>graph_section\<close>, and the key
  \<^verbatim>\<open>"store_connections"\<close> (\<open>store_connections_key\<close>), which the entries that Canals returns do not have yet.
\<close>

record 'gs entry =
  graph_section :: 'gs
  store_connections_key :: "string dict option"

record ('t, 'gs, 'v) document =
  canals_data :: 't
  pipelines_key :: "'gs entry dict"
  stores_key :: "'v dict dict"

text \<open>\<^verbatim>\<open>str(i)\<close> for \<open>i \<ge> 0\<close>: the decimal digits.\<close>

fun str :: "nat \<Rightarrow> string" where
  "str n = (if n < 10 then [char_of (48 + n)] else str (n div 10) @ [char_of (48 + n mod 10)])"

declare str.simps [simp del]

text \<open>
  \<^verbatim>\<open>any(marshalled_store["hash"] == s["hash"] for s in marshalled_stores.values())\<close>: the
  generator reads both keys for each \<open>s\<close> in turn and stops at the first equal pair; a
  missing key raises \<^verbatim>\<open>KeyError\<close>.
\<close>

fun any_same_hash :: "'v dict \<Rightarrow> 'v dict list \<Rightarrow> error + bool" where
  "any_same_hash marshalled_store [] = Inr False"
| "any_same_hash marshalled_store (s # ss) =
     (case map_of marshalled_store ''hash'' of
        None \<Rightarrow> Inl KeyError
      | Some x \<Rightarrow>
          (case map_of s ''hash'' of
             None \<Rightarrow> Inl KeyError
           | Some y \<Rightarrow> if x = y then Inr True else any_same_hash marshalled_store ss))"

text \<open>
  Lines 197 to 201, the loop
  \<^verbatim>\<open>while unique_store_name in marshalled_stores: unique_store_name = store_name + "_" + str(i); i += 1\<close>.
\<close>

definition name_bound :: "'a dict \<Rightarrow> nat" where
  "name_bound marshalled_stores = 10 ^ sum_list (map (\<lambda>kv. length (fst kv)) marshalled_stores)"

function unique_name :: "string \<Rightarrow> 'a dict \<Rightarrow> string \<Rightarrow> nat \<Rightarrow> string" where
  "unique_name store_name marshalled_stores unique_store_name i =
     (if unique_store_name \<in> set (map fst marshalled_stores)
      then unique_name store_name marshalled_stores (store_name @ ''_'' @ str i) (i + 1)
      else unique_store_name)"
  by pat_completeness auto

lemma str_bound: "n < 10 ^ length (str n)"
proof (induction n rule: str.induct)
  case (1 n)
  show ?case
  proof (cases "n < 10")
    case True
    then show ?thesis by (subst str.simps) simp
  next
    case False
    with 1 have "n div 10 < 10 ^ length (str (n div 10))" by simp
    then have "n < 10 * 10 ^ length (str (n div 10))" by arith
    with False show ?thesis by (subst str.simps) simp
  qed
qed

lemma key_length_le:
  "k \<in> set (map fst d) \<Longrightarrow> length k \<le> sum_list (map (\<lambda>kv. length (fst kv)) d)"
proof (induction d)
  case Nil
  then show ?case by simp
next
  case (Cons kv d)
  show ?case
  proof (cases "k = fst kv")
    case True
    then show ?thesis by simp
  next
    case False
    with Cons.prems have "k \<in> set (map fst d)" by auto
    then have "length k \<le> sum_list (map (\<lambda>kv. length (fst kv)) d)" by (rule Cons.IH)
    then show ?thesis by simp
  qed
qed

lemma suffixed_name_bound:
  assumes "store_name @ ''_'' @ str i \<in> set (map fst d)"
  shows "i < name_bound d"
proof -
  have "length (str i) \<le> length (store_name @ ''_'' @ str i)" by simp
  also have "\<dots> \<le> sum_list (map (\<lambda>kv. length (fst kv)) d)"
    using assms by (rule key_length_le)
  finally have "(10::nat) ^ length (str i) \<le> name_bound d"
    unfolding name_bound_def by (simp add: power_increasing)
  with str_bound [of i] show ?thesis by simp
qed

termination unique_name
proof (relation "measure (\<lambda>(store_name, d, u, i).
    if u \<in> set (map fst d) then Suc (name_bound d - i) else 0)")
  show "wf (measure (\<lambda>(store_name :: string, d :: 'a dict, u, i).
    if u \<in> set (map fst d) then Suc (name_bound d - i) else 0))" by simp
next
  fix store_name :: string and d :: "'a dict" and u :: string and i :: nat
  assume u: "u \<in> set (map fst d)"
  show "((store_name, d, store_name @ ''_'' @ str i, i + 1), (store_name, d, u, i))
    \<in> measure (\<lambda>(store_name, d, u, i).
         if u \<in> set (map fst d) then Suc (name_bound d - i) else 0)"
  proof (cases "store_name @ ''_'' @ str i \<in> set (map fst d)")
    case True
    then have "i < name_bound d" by (rule suffixed_name_bound)
    then have "name_bound d - (i + 1) < name_bound d - i" by arith
    with True u show ?thesis by (simp del: set_map map_map)
  next
    case False
    with u show ?thesis by (simp del: set_map map_map)
  qed
qed

declare unique_name.simps [simp del]

lemma unique_name_free:
  "unique_store_name \<notin> set (map fst marshalled_stores) \<Longrightarrow>
   unique_name store_name marshalled_stores unique_store_name i = unique_store_name"
  by (subst unique_name.simps) simp

text \<open>
  Lines 204 to 207: the loop over \<^verbatim>\<open>store_connections.items()\<close> that assigns the new
  name to every entry whose value is the old one.
\<close>

definition rename_connections :: "string \<Rightarrow> string \<Rightarrow> string dict \<Rightarrow> string dict" where
  "rename_connections store_name unique_store_name connections =
     foldl (\<lambda>d (connection_name, connection).
              if connection = store_name then AList.update connection_name unique_store_name d
              else d)
       connections connections"

text \<open>
  The body of the loop over \<^verbatim>\<open>pipeline._document_stores.items()\<close>, lines 189 to 209.
  \<open>store_connections\<close> is the address of the copy made at line 187.
\<close>

definition marshal_store ::
  "ref \<Rightarrow> string \<Rightarrow> ref \<Rightarrow> 'v dict dict \<Rightarrow> ('g, 'v) heap
     \<Rightarrow> (error + 'v dict dict) \<times> ('g, 'v) heap" where
  "marshal_store store_connections store_name store_ref marshalled_stores h =
     (let marshalled_store = to_dict (stores_h h store_ref) in
      case any_same_hash marshalled_store (map snd marshalled_stores) of
        Inl e \<Rightarrow> (Inl e, h)
      | Inr True \<Rightarrow> (Inr marshalled_stores, h)
      | Inr False \<Rightarrow>
          (case map_of marshalled_store ''hash'' of
             None \<Rightarrow> (Inl KeyError, h)
           | Some x \<Rightarrow>
               (let stripped = AList.delete ''hash'' marshalled_store;
                    unique_store_name = unique_name store_name marshalled_stores store_name 0;
                    h' = (if unique_store_name \<noteq> store_name
                          then h\<lparr>dicts_h := (dicts_h h)
                                 (store_connections :=
                                    rename_connections store_name unique_store_name
                                      (dicts_h h store_connections))\<rparr>
                          else h)
                in (Inr (AList.update unique_store_name stripped marshalled_stores), h'))))"

fun marshal_stores ::
  "ref \<Rightarrow> ref dict \<Rightarrow> 'v dict dict \<Rightarrow> ('g, 'v) heap \<Rightarrow> (error + 'v dict dict) \<times> ('g, 'v) heap" where
  "marshal_stores store_connections [] marshalled_stores h = (Inr marshalled_stores, h)"
| "marshal_stores store_connections ((store_name, store_ref) # rest) marshalled_stores h =
     (case marshal_store store_connections store_name store_ref marshalled_stores h of
        (Inl e, h') \<Rightarrow> (Inl e, h')
      | (Inr marshalled_stores', h') \<Rightarrow>
          marshal_stores store_connections rest marshalled_stores' h')"

text \<open>
  The body of the loop over \<^verbatim>\<open>pipelines.items()\<close>, lines 187 to 210: \<^verbatim>\<open>copy\<close> makes a
  new dictionary with the same items, and line 210 puts it in the pipeline's entry, which
  must exist.
\<close>

definition marshal_pipeline ::
  "string \<Rightarrow> ref \<Rightarrow> 'gs entry dict \<Rightarrow> 'v dict dict \<Rightarrow> ('g, 'v) heap
     \<Rightarrow> (error + 'gs entry dict \<times> 'v dict dict) \<times> ('g, 'v) heap" where
  "marshal_pipeline pipeline_name pipeline_ref sections marshalled_stores h =
     (let store_connections = next_dict h;
          h1 = h\<lparr>dicts_h := (dicts_h h)
                   (store_connections :=
                      dicts_h h (document_stores_connections (pipelines_h h pipeline_ref))),
                 next_dict := Suc (next_dict h)\<rparr>
      in case marshal_stores store_connections (document_stores (pipelines_h h1 pipeline_ref))
                marshalled_stores h1 of
           (Inl e, h2) \<Rightarrow> (Inl e, h2)
         | (Inr marshalled_stores', h2) \<Rightarrow>
             (case map_of sections pipeline_name of
                None \<Rightarrow> (Inl KeyError, h2)
              | Some sec \<Rightarrow>
                  (Inr (AList.update pipeline_name
                          (sec\<lparr>store_connections_key := Some (dicts_h h2 store_connections)\<rparr>)
                          sections,
                        marshalled_stores'), h2)))"

fun marshal_loop ::
  "ref dict \<Rightarrow> 'gs entry dict \<Rightarrow> 'v dict dict \<Rightarrow> ('g, 'v) heap
     \<Rightarrow> (error + 'gs entry dict \<times> 'v dict dict) \<times> ('g, 'v) heap" where
  "marshal_loop [] sections marshalled_stores h = (Inr (sections, marshalled_stores), h)"
| "marshal_loop ((pipeline_name, pipeline_ref) # rest) sections marshalled_stores h =
     (case marshal_pipeline pipeline_name pipeline_ref sections marshalled_stores h of
        (Inl e, h') \<Rightarrow> (Inl e, h')
      | (Inr (sections', marshalled_stores'), h') \<Rightarrow>
          marshal_loop rest sections' marshalled_stores' h')"

text \<open>
  \<^verbatim>\<open>marshal_pipelines\<close>. The collaborator \<^verbatim>\<open>marshal_canals_pipelines\<close> is a parameter:
  it reads the pipelines and gives its own data and one entry for each pipeline, or an
  exception.
\<close>

definition marshal_pipelines ::
  "(ref dict \<Rightarrow> ('g, 'v) heap \<Rightarrow> error + 't \<times> 'gs dict) \<Rightarrow> ref dict \<Rightarrow> ('g, 'v) heap
     \<Rightarrow> (error + ('t, 'gs, 'v) document) \<times> ('g, 'v) heap" where
  "marshal_pipelines marshal_canals_pipelines pipelines h =
     (case marshal_canals_pipelines pipelines h of
        Inl e \<Rightarrow> (Inl e, h)
      | Inr (t, entries) \<Rightarrow>
          (case marshal_loop pipelines
                  (map (\<lambda>(k, g). (k, \<lparr>graph_section = g, store_connections_key = None\<rparr>)) entries)
                  [] h of
             (Inl e, h') \<Rightarrow> (Inl e, h')
           | (Inr (sections, marshalled_stores), h') \<Rightarrow>
               (Inr \<lparr>canals_data = t, pipelines_key = sections,
                     stores_key = marshalled_stores\<rparr>, h')))"

section \<open>unmarshal_pipelines\<close>

text \<open>
  Lines 227 to 230. \<open>registry\<close> is \<^verbatim>\<open>document_store.registry\<close>, from the type tag to the
  class's \<^verbatim>\<open>from_dict\<close>, which gives a new store object or an exception.
\<close>

fun unmarshal_stores ::
  "('v \<Rightarrow> ('v dict \<Rightarrow> error + 'v store) option) \<Rightarrow> 'v dict dict \<Rightarrow> ref dict \<Rightarrow> ('g, 'v) heap
     \<Rightarrow> (error + ref dict) \<times> ('g, 'v) heap" where
  "unmarshal_stores registry [] stores h = (Inr stores, h)"
| "unmarshal_stores registry ((store_name, store_data) # rest) stores h =
     (case map_of store_data ''type'' of
        None \<Rightarrow> (Inl KeyError, h)
      | Some t \<Rightarrow>
          (case registry t of
             None \<Rightarrow> (Inl KeyError, h)
           | Some from_dict \<Rightarrow>
               (case from_dict store_data of
                  Inl e \<Rightarrow> (Inl e, h)
                | Inr obj \<Rightarrow>
                    unmarshal_stores registry rest
                      (AList.update store_name (next_store h) stores)
                      (h\<lparr>stores_h := (stores_h h)(next_store h := obj),
                         next_store := Suc (next_store h)\<rparr>))))"

text \<open>
  The components that \<^verbatim>\<open>_unmarshal_canals_components\<close> builds are new objects, one for
  each name.
\<close>

fun new_components ::
  "component dict \<Rightarrow> ref dict \<Rightarrow> ('g, 'v) heap \<Rightarrow> ref dict \<times> ('g, 'v) heap" where
  "new_components [] components h = (components, h)"
| "new_components ((component_name, obj) # rest) components h =
     new_components rest
       (AList.update component_name (next_component h) components)
       (h\<lparr>components_h := (components_h h)(next_component h := obj),
          next_component := Suc (next_component h)\<rparr>)"

text \<open>
  Lines 236 and 237. In \<^verbatim>\<open>components[component_name].document_store = stores[store_name]\<close>
  the right-hand side is evaluated first.
\<close>

fun reconnect_stores ::
  "string dict \<Rightarrow> ref dict \<Rightarrow> ref dict \<Rightarrow> ('g, 'v) heap \<Rightarrow> (error + unit) \<times> ('g, 'v) heap" where
  "reconnect_stores [] stores components h = (Inr (), h)"
| "reconnect_stores ((component_name, store_name) # rest) stores components h =
     (case map_of stores store_name of
        None \<Rightarrow> (Inl KeyError, h)
      | Some s \<Rightarrow>
          (case map_of components component_name of
             None \<Rightarrow> (Inl KeyError, h)
           | Some c \<Rightarrow>
               reconnect_stores rest stores components
                 (h\<lparr>components_h := (components_h h)
                      (c := (components_h h c)\<lparr>document_store := Some s\<rparr>)\<rparr>)))"

text \<open>Lines 233 to 237, the loop over \<^verbatim>\<open>data["pipelines"].values()\<close>.\<close>

fun reconnect_pipelines ::
  "'gs entry list \<Rightarrow> ref dict \<Rightarrow> ref dict \<Rightarrow> ('g, 'v) heap \<Rightarrow> (error + unit) \<times> ('g, 'v) heap" where
  "reconnect_pipelines [] stores components h = (Inr (), h)"
| "reconnect_pipelines (pipeline # rest) stores components h =
     (case store_connections_key pipeline of
        None \<Rightarrow> (Inl KeyError, h)
      | Some connections \<Rightarrow>
          (case reconnect_stores connections stores components h of
             (Inl e, h') \<Rightarrow> (Inl e, h')
           | (Inr u, h') \<Rightarrow> reconnect_pipelines rest stores components h'))"

text \<open>
  \<^verbatim>\<open>unmarshal_pipelines\<close>. The collaborators \<^verbatim>\<open>_unmarshal_canals_components\<close> and
  \<^verbatim>\<open>_unmarshal_canals_pipelines\<close> are parameters; the second one reads the components
  and gives the pipelines, whatever they are.
\<close>

definition unmarshal_pipelines ::
  "('v \<Rightarrow> ('v dict \<Rightarrow> error + 'v store) option)
     \<Rightarrow> (('t, 'gs, 'v) document \<Rightarrow> error + component dict)
     \<Rightarrow> (('t, 'gs, 'v) document \<Rightarrow> ref dict \<Rightarrow> ('g, 'v) heap \<Rightarrow> error + 'r)
     \<Rightarrow> ('t, 'gs, 'v) document \<Rightarrow> ('g, 'v) heap \<Rightarrow> (error + 'r) \<times> ('g, 'v) heap" where
  "unmarshal_pipelines registry unmarshal_canals_components unmarshal_canals_pipelines data h =
     (case unmarshal_stores registry (stores_key data) [] h of
        (Inl e, h1) \<Rightarrow> (Inl e, h1)
      | (Inr stores, h1) \<Rightarrow>
          (case unmarshal_canals_components data of
             Inl e \<Rightarrow> (Inl e, h1)
           | Inr objs \<Rightarrow>
               (case new_components objs [] h1 of
                  (components, h2) \<Rightarrow>
                    (case reconnect_pipelines (map snd (pipelines_key data)) stores components h2 of
                       (Inl e, h3) \<Rightarrow> (Inl e, h3)
                     | (Inr u, h3) \<Rightarrow>
                         (case unmarshal_canals_pipelines data components h3 of
                            Inl e \<Rightarrow> (Inl e, h3)
                          | Inr pipelines \<Rightarrow> (Inr pipelines, h3))))))"

section \<open>A caller and sample collaborators\<close>

text \<open>
  A caller that makes one call after the other on a pipeline and carries on after an
  exception.
\<close>

datatype operation =
    AddDocumentStore string ref
  | AddComponent string ref "string option"

fun apply_operation ::
  "(string \<Rightarrow> ref \<Rightarrow> 'g \<Rightarrow> error + 'g) \<Rightarrow> ref \<Rightarrow> operation \<Rightarrow> ('g, 'v) heap \<Rightarrow> ('g, 'v) heap" where
  "apply_operation super_add_component self (AddDocumentStore name s) h =
     snd (add_document_store self name s h)"
| "apply_operation super_add_component self (AddComponent name inst document_store_arg) h =
     snd (add_component super_add_component self name inst document_store_arg h)"

fun run_operations ::
  "(string \<Rightarrow> ref \<Rightarrow> 'g \<Rightarrow> error + 'g) \<Rightarrow> ref \<Rightarrow> operation list \<Rightarrow> ('g, 'v) heap
     \<Rightarrow> ('g, 'v) heap" where
  "run_operations super_add_component self [] h = h"
| "run_operations super_add_component self (operation # rest) h =
     run_operations super_add_component self rest
       (apply_operation super_add_component self operation h)"

text \<open>
  The collaborators used in the examples. The graph of a pipeline is the dictionary of its
  components, and \<^verbatim>\<open>add_component\<close> of Canals raises \<^verbatim>\<open>ValueError\<close> for a name that is
  taken, as the docstring of \<^verbatim>\<open>Pipeline.add_component\<close> says. The entry of a pipeline
  lists its components' names with whether each is store-aware; the components are
  rebuilt unbound, and a rebuilt pipeline is the dictionary of its components.
\<close>

definition canals_add_component :: "string \<Rightarrow> ref \<Rightarrow> ref dict \<Rightarrow> error + ref dict" where
  "canals_add_component name inst g =
     (if name \<in> set (map fst g) then Inl (ValueError OtherMessage) else Inr (g @ [(name, inst)]))"

definition marshal_canals ::
  "ref dict \<Rightarrow> (ref dict, 'v) heap \<Rightarrow> error + unit \<times> (string \<times> bool) list dict" where
  "marshal_canals pipelines h =
     Inr ((), map (\<lambda>(pipeline_name, p).
                (pipeline_name,
                 map (\<lambda>(name, inst). (name, aware (components_h h inst)))
                   (graph (pipelines_h h p))))
            pipelines)"

definition unmarshal_canals_components ::
  "(unit, (string \<times> bool) list, 'v) document \<Rightarrow> error + component dict" where
  "unmarshal_canals_components data =
     Inr (concat (map (\<lambda>(pipeline_name, e).
                    map (\<lambda>(name, a).
                          (name, \<lparr>aware = a, document_store = None, document_store_name = None\<rparr>))
                      (graph_section e))
            (pipelines_key data)))"

definition unmarshal_canals_pipelines ::
  "(unit, (string \<times> bool) list, 'v) document \<Rightarrow> ref dict \<Rightarrow> (ref dict, 'v) heap
     \<Rightarrow> error + ref dict dict" where
  "unmarshal_canals_pipelines data components h =
     Inr (map (\<lambda>(pipeline_name, e).
                (pipeline_name,
                 filter (\<lambda>(name, inst). name \<in> set (map fst (graph_section e))) components))
            (pipelines_key data))"

text \<open>
  The store classes of the examples: the type tag \<open>''T''\<close> is registered, and its
  \<^verbatim>\<open>from_dict\<close> builds a store whose \<^verbatim>\<open>to_dict()\<close> is the data with the hash put back.
\<close>

definition sample_registry :: "string \<Rightarrow> (string dict \<Rightarrow> error + string store) option" where
  "sample_registry t =
     (if t = ''T''
      then Some (\<lambda>d. Inr \<lparr>haystack_document_store = True,
                            to_dict = (''hash'', concat (map snd d)) # d\<rparr>)
      else None)"

text \<open>
  The heap of the examples: two new pipelines, 0 and 1, each with its own empty
  dictionary of connections; the components 0 and 1 are store-aware and unbound and the
  other components are not store-aware; the stores 0 and 1 are two objects of equal
  content, the store 2 has another content, and the other objects are no stores.
\<close>

definition sample_heap :: "(ref dict, string) heap" where
  "sample_heap =
     \<lparr>pipelines_h = (\<lambda>p. \<lparr>graph = [], document_stores_connections = p, document_stores = []\<rparr>),
      dicts_h = (\<lambda>d. []),
      next_dict = 2,
      components_h = (\<lambda>c. \<lparr>aware = (c < 2), document_store = None, document_store_name = None\<rparr>),
      next_component = 3,
      stores_h = (\<lambda>s. \<lparr>haystack_document_store = (s < 3),
                         to_dict = [(''hash'', if s < 2 then ''h0'' else ''h2''), (''type'', ''T'')]\<rparr>),
      next_store = 4\<rparr>"

text \<open>
  The heap after pipeline 0 has registered the store 0 as \<open>''s''\<close> and the store 2 as
  \<open>''t''\<close> and has added the component 0 as \<open>''a''\<close>, connected to \<open>''s''\<close>.
\<close>

definition bound_heap :: "(ref dict, string) heap" where
  "bound_heap =
     run_operations canals_add_component 0
       [AddDocumentStore ''s'' 0, AddDocumentStore ''t'' 2, AddComponent ''a'' 0 (Some ''s'')]
       sample_heap"

lemma bound_heap_pipeline:
  "pipelines_h bound_heap 0 =
     \<lparr>graph = [(''a'', 0)], document_stores_connections = 0,
      document_stores = [(''s'', 0), (''t'', 2)]\<rparr>"
  by (simp add: bound_heap_def sample_heap_def add_document_store_def add_component_def
      register_component_def connect_store_def canals_add_component_def)

lemma bound_heap_other_pipeline:
  "pipelines_h bound_heap (Suc 0) =
     \<lparr>graph = [], document_stores_connections = Suc 0, document_stores = []\<rparr>"
  by (simp add: bound_heap_def sample_heap_def add_document_store_def add_component_def
      register_component_def connect_store_def canals_add_component_def)

lemma bound_heap_dicts: "dicts_h bound_heap 0 = [(''a'', ''s'')]" "dicts_h bound_heap (Suc 0) = []"
  by (simp_all add: bound_heap_def sample_heap_def add_document_store_def add_component_def
      register_component_def connect_store_def canals_add_component_def)

lemma bound_heap_components:
  "components_h bound_heap 0 =
     \<lparr>aware = True, document_store = Some 0, document_store_name = Some ''s''\<rparr>"
  "components_h bound_heap (Suc 0) =
     \<lparr>aware = True, document_store = None, document_store_name = None\<rparr>"
  "components_h bound_heap 2 =
     \<lparr>aware = False, document_store = None, document_store_name = None\<rparr>"
  by (simp_all add: bound_heap_def sample_heap_def add_document_store_def add_component_def
      register_component_def connect_store_def canals_add_component_def)

lemma bound_heap_stores: "stores_h bound_heap = stores_h sample_heap"
  by (simp add: bound_heap_def sample_heap_def add_document_store_def add_component_def
      register_component_def connect_store_def canals_add_component_def)

section \<open>What marshal_pipelines writes\<close>

text \<open>
  An entry of \<^verbatim>\<open>marshalled_stores\<close> has had its key \<^verbatim>\<open>"hash"\<close> deleted at line 194
  before it was stored at line 209.
\<close>

definition stripped :: "'v dict dict \<Rightarrow> bool" where
  "stripped marshalled_stores = list_all (\<lambda>kv. map_of (snd kv) ''hash'' = None) marshalled_stores"

lemma any_same_hash_stripped:
  assumes "stripped ms" and "ms \<noteq> []"
  shows "any_same_hash m (map snd ms) = Inl KeyError"
proof -
  from assms obtain kv rest where ms: "ms = kv # rest" by (cases ms) auto
  with assms have "map_of (snd kv) ''hash'' = None" by (simp add: stripped_def)
  with ms show ?thesis by (cases "map_of m ''hash''") simp_all
qed

lemma marshal_store_stripped_raises:
  assumes "stripped ms" and "ms \<noteq> []"
  shows "marshal_store sc store_name s ms h = (Inl KeyError, h)"
  using any_same_hash_stripped [OF assms] by (simp add: marshal_store_def Let_def)

lemma marshal_store_first:
  "marshal_store sc store_name s [] h =
     (case map_of (to_dict (stores_h h s)) ''hash'' of
        None \<Rightarrow> (Inl KeyError, h)
      | Some x \<Rightarrow> (Inr [(store_name, AList.delete ''hash'' (to_dict (stores_h h s)))], h))"
  by (simp add: marshal_store_def Let_def unique_name_free split: option.split)

lemma stripped_single: "stripped [(n, AList.delete ''hash'' d)]"
  by (simp add: stripped_def delete_conv')

lemma marshal_store_success:
  assumes "stripped ms" and "marshal_store sc store_name s ms h = (Inr ms', h')"
  shows "ms = [] \<and> h' = h \<and> stripped ms' \<and> length ms' = 1"
proof (cases "ms = []")
  case True
  with assms(2) show ?thesis
    by (auto simp add: marshal_store_first stripped_single split: option.splits)
next
  case False
  with assms show ?thesis by (simp add: marshal_store_stripped_raises)
qed

lemma marshal_stores_success:
  assumes "stripped ms" and "length ms \<le> 1"
    and "marshal_stores sc xs ms h = (Inr ms', h')"
  shows "h' = h \<and> stripped ms' \<and> length ms' \<le> 1"
  using assms
proof (induction xs arbitrary: ms h)
  case Nil
  then show ?case by simp
next
  case (Cons x xs)
  obtain store_name s where x: "x = (store_name, s)" by (cases x)
  from Cons.prems(3) x obtain ms1 h1 where
    1: "marshal_store sc store_name s ms h = (Inr ms1, h1)" and
    2: "marshal_stores sc xs ms1 h1 = (Inr ms', h')"
    by (auto split: prod.splits sum.splits)
  from marshal_store_success [OF Cons.prems(1) 1]
  have "h1 = h" "stripped ms1" "length ms1 \<le> 1" by simp_all
  with Cons.IH [OF _ _ 2] show ?case by simp
qed


text \<open>
  Two heaps that differ at most in the dictionary at the address \<open>d\<close>, and two heaps of
  which the second has every object of the first unchanged, and possibly new dictionaries.
\<close>

definition dict_written :: "ref \<Rightarrow> ('g, 'v) heap \<Rightarrow> ('g, 'v) heap \<Rightarrow> bool" where
  "dict_written d h h' \<longleftrightarrow>
     pipelines_h h' = pipelines_h h \<and> components_h h' = components_h h \<and>
     stores_h h' = stores_h h \<and> next_dict h' = next_dict h \<and>
     next_component h' = next_component h \<and> next_store h' = next_store h \<and>
     (\<forall>d'. d' \<noteq> d \<longrightarrow> dicts_h h' d' = dicts_h h d')"

definition objects_kept :: "('g, 'v) heap \<Rightarrow> ('g, 'v) heap \<Rightarrow> bool" where
  "objects_kept h h' \<longleftrightarrow>
     pipelines_h h' = pipelines_h h \<and> components_h h' = components_h h \<and>
     stores_h h' = stores_h h \<and> next_dict h \<le> next_dict h' \<and>
     next_component h' = next_component h \<and> next_store h' = next_store h \<and>
     (\<forall>d. d < next_dict h \<longrightarrow> dicts_h h' d = dicts_h h d)"

lemma dict_written_refl: "dict_written d h h"
  by (simp add: dict_written_def)

lemma dict_written_trans:
  "dict_written d h h1 \<Longrightarrow> dict_written d h1 h2 \<Longrightarrow> dict_written d h h2"
  by (simp add: dict_written_def)

lemma objects_kept_refl: "objects_kept h h"
  by (simp add: objects_kept_def)

lemma objects_kept_trans:
  "objects_kept h h1 \<Longrightarrow> objects_kept h1 h2 \<Longrightarrow> objects_kept h h2"
  by (auto simp add: objects_kept_def)

lemma marshal_store_writes:
  "marshal_store sc store_name s ms h = (r, h') \<Longrightarrow> dict_written sc h h'"
  by (auto simp add: marshal_store_def Let_def dict_written_def
      split: sum.splits bool.splits option.splits if_splits)

lemma marshal_stores_writes:
  "marshal_stores sc xs ms h = (r, h') \<Longrightarrow> dict_written sc h h'"
proof (induction xs arbitrary: ms h)
  case Nil
  then show ?case by (simp add: dict_written_refl)
next
  case (Cons x xs)
  obtain store_name s where x: "x = (store_name, s)" by (cases x)
  obtain r1 h1 where 1: "marshal_store sc store_name s ms h = (r1, h1)"
    by (cases "marshal_store sc store_name s ms h")
  then have w: "dict_written sc h h1" by (rule marshal_store_writes)
  show ?case
  proof (cases r1)
    case (Inl e)
    with Cons.prems x 1 w show ?thesis by simp
  next
    case (Inr ms1)
    with Cons.prems x 1 have "marshal_stores sc xs ms1 h1 = (r, h')" by simp
    then have "dict_written sc h1 h'" by (rule Cons.IH)
    with w show ?thesis by (rule dict_written_trans)
  qed
qed

lemma marshal_pipeline_keeps:
  assumes "marshal_pipeline pipeline_name p entries ms h = (r, h')"
  shows "objects_kept h h'"
proof -
  define h1 where "h1 = h\<lparr>dicts_h := (dicts_h h)
      (next_dict h := dicts_h h (document_stores_connections (pipelines_h h p))),
      next_dict := Suc (next_dict h)\<rparr>"
  obtain r2 h2 where 2: "marshal_stores (next_dict h) (document_stores (pipelines_h h1 p)) ms h1
      = (r2, h2)"
    by (cases "marshal_stores (next_dict h) (document_stores (pipelines_h h1 p)) ms h1")
  then have w: "dict_written (next_dict h) h1 h2" by (rule marshal_stores_writes)
  from assms 2 have "h' = h2"
    by (auto simp add: marshal_pipeline_def Let_def h1_def split: sum.splits option.splits)
  with w show ?thesis by (auto simp add: dict_written_def objects_kept_def h1_def)
qed

lemma marshal_loop_keeps:
  "marshal_loop ps entries ms h = (r, h') \<Longrightarrow> objects_kept h h'"
proof (induction ps arbitrary: entries ms h)
  case Nil
  then show ?case by (simp add: objects_kept_refl)
next
  case (Cons x ps)
  obtain pipeline_name p where x: "x = (pipeline_name, p)" by (cases x)
  obtain r1 h1 where 1: "marshal_pipeline pipeline_name p entries ms h = (r1, h1)"
    by (cases "marshal_pipeline pipeline_name p entries ms h")
  then have k: "objects_kept h h1" by (rule marshal_pipeline_keeps)
  show ?case
  proof (cases r1)
    case (Inl e)
    with Cons.prems x 1 k show ?thesis by simp
  next
    case (Inr v)
    obtain entries1 ms1 where "v = (entries1, ms1)" by (cases v)
    with Inr Cons.prems x 1 have "marshal_loop ps entries1 ms1 h1 = (r, h')" by simp
    then have "objects_kept h1 h'" by (rule Cons.IH)
    with k show ?thesis by (rule objects_kept_trans)
  qed
qed

lemma marshal_pipelines_keeps:
  "marshal_pipelines marshal_canals_pipelines pipelines h = (r, h') \<Longrightarrow> objects_kept h h'"
  by (auto simp add: marshal_pipelines_def objects_kept_refl
      split: sum.splits prod.splits dest: marshal_loop_keeps)

section \<open>Adding components\<close>

text \<open>
  C4. The claim is that adding a store-aware component that already holds a store, with
  no store name, succeeds and only registers the component. The code does not get that
  far: with \<^verbatim>\<open>document_store=None\<close> the test at line 99,
  \<^verbatim>\<open>document_store not in self._document_stores\<close>, holds, and every such call raises
  \<^verbatim>\<open>NoSuchDocumentStoreError\<close> and leaves the heap as it was.
\<close>

theorem reuse_without_name_raises:
  assumes "aware (components_h h inst)" and "document_store (components_h h inst) \<noteq> None"
  shows "add_component super_add_component self name inst None h
           = (Inl NoSuchDocumentStoreError, h)"
  using assms by (auto simp add: add_component_def Let_def)

theorem reuse_without_name_raises_witness:
  "aware (components_h bound_heap 0) \<and> document_store (components_h bound_heap 0) \<noteq> None \<and>
   add_component canals_add_component 1 ''b'' 0 None bound_heap
     = (Inl NoSuchDocumentStoreError, bound_heap)"
  using reuse_without_name_raises [of bound_heap 0 canals_add_component 1 "''b''"]
  by (simp add: bound_heap_components)

text \<open>
  C6. The claim is that giving a store name for a component that already holds a store
  raises the \<^verbatim>\<open>ValueError\<close> of line 91 whichever pipeline recorded the connection.
  The message of that error reads \<^verbatim>\<open>self._document_stores_connections[name]\<close>: when this
  pipeline has no connection under the name, as for a component that another pipeline
  connected, the call raises \<^verbatim>\<open>KeyError\<close> instead.
\<close>

theorem second_name_raises_key_error:
  assumes "aware (components_h h inst)" and "document_store (components_h h inst) \<noteq> None"
    and "truthy document_store_arg"
    and "map_of (dicts_h h (document_stores_connections (pipelines_h h self))) name = None"
  shows "add_component super_add_component self name inst document_store_arg h = (Inl KeyError, h)"
  using assms by (auto simp add: add_component_def Let_def)

theorem second_name_raises_key_error_witness:
  "aware (components_h bound_heap 0) \<and> document_store (components_h bound_heap 0) \<noteq> None \<and>
   truthy (Some ''s'') \<and>
   map_of (dicts_h bound_heap (document_stores_connections (pipelines_h bound_heap 1))) ''a'' = None \<and>
   add_component canals_add_component 1 ''a'' 0 (Some ''s'') bound_heap = (Inl KeyError, bound_heap)"
  using second_name_raises_key_error
    [of bound_heap 0 "Some ''s''" 1 "''a''" canals_add_component]
  by (simp add: bound_heap_components bound_heap_other_pipeline bound_heap_dicts)

text \<open>
  C7. The claim is that a store name given for a component that is not store-aware raises
  the \<^verbatim>\<open>ValueError\<close> of line 111 and changes nothing. The code tests the truth value of
  the name, \<^verbatim>\<open>elif document_store:\<close>, so this holds for every name but the empty
  string; the call with the empty string goes on to register the component.
\<close>

theorem unaware_with_name_raises:
  assumes "\<not> aware (components_h h inst)" and "truthy document_store_arg"
  shows "add_component super_add_component self name inst document_store_arg h
           = (Inl (ValueError DoesNotSupportDocumentStores), h)"
  using assms by (auto simp add: add_component_def Let_def)

theorem unaware_with_name_raises_witness:
  "\<not> aware (components_h bound_heap 2) \<and> truthy (Some ''s'') \<and>
   add_component canals_add_component 0 ''c'' 2 (Some ''s'') bound_heap
     = (Inl (ValueError DoesNotSupportDocumentStores), bound_heap)"
  using unaware_with_name_raises [of bound_heap 2 "Some ''s''" canals_add_component 0 "''c''"]
  by (simp add: bound_heap_components)

theorem unaware_with_empty_name_succeeds:
  "\<not> aware (components_h bound_heap 2) \<and>
   fst (add_component canals_add_component 0 ''c'' 2 (Some []) bound_heap) = Inr ()"
  by (simp add: add_component_def register_component_def canals_add_component_def
      bound_heap_components bound_heap_pipeline)

text \<open>
  C10. When the registration with Canals fails after lines 105 to 108 have connected a
  store to the component, the call raises that exception and the three assignments stay:
  the connection of the name, the component's store and the store name it remembers.
\<close>

theorem binding_not_rolled_back:
  assumes "aware (components_h h inst)" and "document_store (components_h h inst) = None"
    and "n \<noteq> []" and "map_of (document_stores (pipelines_h h self)) n = Some s"
    and "super_add_component name inst (graph (pipelines_h h self)) = Inl e"
    and "add_component super_add_component self name inst (Some n) h = (r, h')"
  shows "r = Inl e \<and>
         map_of (dicts_h h' (document_stores_connections (pipelines_h h' self))) name = Some n \<and>
         document_store (components_h h' inst) = Some s \<and>
         document_store_name (components_h h' inst) = Some n"
  using assms
  by (auto simp add: add_component_def register_component_def connect_store_def Let_def
      update_conv')

theorem binding_not_rolled_back_witness:
  "aware (components_h bound_heap 1) \<and> document_store (components_h bound_heap 1) = None \<and>
   map_of (document_stores (pipelines_h bound_heap 0)) ''t'' = Some 2 \<and>
   canals_add_component ''a'' 1 (graph (pipelines_h bound_heap 0)) = Inl (ValueError OtherMessage) \<and>
   fst (add_component canals_add_component 0 ''a'' 1 (Some ''t'') bound_heap)
     = Inl (ValueError OtherMessage) \<and>
   map_of (dicts_h (snd (add_component canals_add_component 0 ''a'' 1 (Some ''t'') bound_heap))
            (document_stores_connections
              (pipelines_h (snd (add_component canals_add_component 0 ''a'' 1 (Some ''t'') bound_heap)) 0)))
     ''a'' = Some ''t'' \<and>
   document_store
     (components_h (snd (add_component canals_add_component 0 ''a'' 1 (Some ''t'') bound_heap)) 1)
     = Some 2 \<and>
   document_store_name
     (components_h (snd (add_component canals_add_component 0 ''a'' 1 (Some ''t'') bound_heap)) 1)
     = Some ''t''"
proof -
  have 1: "aware (components_h bound_heap 1)" "document_store (components_h bound_heap 1) = None"
    by (simp_all add: bound_heap_components)
  have 2: "map_of (document_stores (pipelines_h bound_heap 0)) ''t'' = Some 2"
    by (simp add: bound_heap_pipeline)
  have 3: "canals_add_component ''a'' 1 (graph (pipelines_h bound_heap 0))
             = Inl (ValueError OtherMessage)"
    by (simp add: bound_heap_pipeline canals_add_component_def)
  have 4: "''t'' \<noteq> []" by simp
  from binding_not_rolled_back
    [where super_add_component = canals_add_component and name = "''a''" and h = bound_heap
       and inst = 1 and self = 0 and n = "''t''" and s = 2 and e = "ValueError OtherMessage",
     OF 1 4 2 3 surjective_pairing] 1 2 3
  show ?thesis by simp
qed

section \<open>Marshalling\<close>

text \<open>
  Three heaps built by the methods of the class: in \<open>equal_heap\<close> the pipelines 0 and 1
  each hold a store named \<open>''store''\<close>, two objects of equal content; in
  \<open>different_heap\<close> the two stores named \<open>''store''\<close> differ in content; in
  \<open>shared_heap\<close> the pipeline 0 holds one store, to which its components \<open>''a''\<close> and
  \<open>''b''\<close> are connected, and a component \<open>''c''\<close> that is not store-aware.
\<close>

definition equal_heap :: "(ref dict, string) heap" where
  "equal_heap =
     run_operations canals_add_component 1 [AddDocumentStore ''store'' 1]
       (run_operations canals_add_component 0 [AddDocumentStore ''store'' 0] sample_heap)"

definition different_heap :: "(ref dict, string) heap" where
  "different_heap =
     run_operations canals_add_component 1 [AddDocumentStore ''store'' 2]
       (run_operations canals_add_component 0 [AddDocumentStore ''store'' 0] sample_heap)"

definition shared_heap :: "(ref dict, string) heap" where
  "shared_heap =
     run_operations canals_add_component 0
       [AddDocumentStore ''s'' 0, AddComponent ''a'' 0 (Some ''s''),
        AddComponent ''b'' 1 (Some ''s''), AddComponent ''c'' 2 None]
       sample_heap"

lemmas run_defs = sample_heap_def add_document_store_def add_component_def
      register_component_def connect_store_def canals_add_component_def

lemma equal_heap_pipelines:
  "pipelines_h equal_heap 0 =
     \<lparr>graph = [], document_stores_connections = 0, document_stores = [(''store'', 0)]\<rparr>"
  "pipelines_h equal_heap (Suc 0) =
     \<lparr>graph = [], document_stores_connections = Suc 0, document_stores = [(''store'', Suc 0)]\<rparr>"
  by (simp_all add: equal_heap_def run_defs)

lemma equal_heap_stores:
  "stores_h equal_heap = stores_h sample_heap" "dicts_h equal_heap = (\<lambda>d. [])"
  "next_dict equal_heap = 2"
  by (simp_all add: equal_heap_def run_defs)

lemma sample_stores:
  "to_dict (stores_h sample_heap 0) = [(''hash'', ''h0''), (''type'', ''T'')]"
  "to_dict (stores_h sample_heap (Suc 0)) = [(''hash'', ''h0''), (''type'', ''T'')]"
  "to_dict (stores_h sample_heap 2) = [(''hash'', ''h2''), (''type'', ''T'')]"
  by (simp_all add: sample_heap_def)

text \<open>
  C1. The claim is that two stores of equal hash give one entry of the table
  \<^verbatim>\<open>"stores"\<close>. The code deletes the key \<^verbatim>\<open>"hash"\<close> of an entry before it stores it
  (line 194), and the test of line 191 reads \<^verbatim>\<open>s["hash"]\<close> of every entry stored so far:
  from the second store on, whatever its hash, the call raises \<^verbatim>\<open>KeyError\<close>. Here the
  two pipelines hold two stores that serialize to the same hash.
\<close>

theorem equal_hashes_raise_key_error:
  "map_of (to_dict (stores_h equal_heap 0)) ''hash''
     = map_of (to_dict (stores_h equal_heap 1)) ''hash'' \<and>
   get_document_store 0 ''store'' equal_heap = Inr 0 \<and>
   get_document_store 1 ''store'' equal_heap = Inr 1 \<and>
   fst (marshal_pipelines marshal_canals [(''p1'', 0), (''p2'', 1)] equal_heap) = Inl KeyError"
  by (simp add: marshal_pipelines_def marshal_canals_def marshal_pipeline_def
      marshal_store_def unique_name_free get_document_store_def
      equal_heap_pipelines equal_heap_stores sample_stores Let_def)


lemma different_heap_pipelines:
  "pipelines_h different_heap 0 =
     \<lparr>graph = [], document_stores_connections = 0, document_stores = [(''store'', 0)]\<rparr>"
  "pipelines_h different_heap (Suc 0) =
     \<lparr>graph = [], document_stores_connections = Suc 0, document_stores = [(''store'', 2)]\<rparr>"
  by (simp_all add: different_heap_def run_defs)

lemma different_heap_stores:
  "stores_h different_heap = stores_h sample_heap" "dicts_h different_heap = (\<lambda>d. [])"
  "next_dict different_heap = 2"
  by (simp_all add: different_heap_def run_defs)

text \<open>
  C2. The claim is that two pipelines with stores of the same name and different hashes
  give the two names \<open>''store''\<close> and \<open>''store_0''\<close>. The second store never gets to the
  renaming of lines 197 to 207: the test of line 191 raises \<^verbatim>\<open>KeyError\<close> at the entry of
  the first store, whose hash line 194 has deleted.
\<close>

theorem same_name_raises_key_error:
  "map_of (to_dict (stores_h different_heap 0)) ''hash''
     \<noteq> map_of (to_dict (stores_h different_heap 2)) ''hash'' \<and>
   get_document_store 0 ''store'' different_heap = Inr 0 \<and>
   get_document_store 1 ''store'' different_heap = Inr 2 \<and>
   fst (marshal_pipelines marshal_canals [(''p1'', 0), (''p2'', 1)] different_heap) = Inl KeyError"
  by (simp add: marshal_pipelines_def marshal_canals_def marshal_pipeline_def
      marshal_store_def unique_name_free get_document_store_def
      different_heap_pipelines different_heap_stores sample_stores Let_def)

lemma shared_heap_pipeline:
  "pipelines_h shared_heap 0 =
     \<lparr>graph = [(''a'', 0), (''b'', Suc 0), (''c'', 2)], document_stores_connections = 0,
      document_stores = [(''s'', 0)]\<rparr>"
  by (simp add: shared_heap_def run_defs)

lemma shared_heap_dicts:
  "dicts_h shared_heap = (\<lambda>d. [])(0 := [(''a'', ''s''), (''b'', ''s'')])"
  "next_dict shared_heap = 2"
  by (simp_all add: shared_heap_def run_defs)

lemma shared_heap_components:
  "components_h shared_heap 0 =
     \<lparr>aware = True, document_store = Some 0, document_store_name = Some ''s''\<rparr>"
  "components_h shared_heap (Suc 0) =
     \<lparr>aware = True, document_store = Some 0, document_store_name = Some ''s''\<rparr>"
  "components_h shared_heap 2 =
     \<lparr>aware = False, document_store = None, document_store_name = None\<rparr>"
  by (simp_all add: shared_heap_def run_defs)

lemma shared_heap_stores:
  "stores_h shared_heap = stores_h sample_heap" "next_store shared_heap = 4"
  "next_component shared_heap = 3"
  by (simp_all add: shared_heap_def run_defs)

definition shared_document :: "(unit, (string \<times> bool) list, string) document" where
  "shared_document =
     \<lparr>canals_data = (),
      pipelines_key =
        [(''p1'', \<lparr>graph_section = [(''a'', True), (''b'', True), (''c'', False)],
                   store_connections_key = Some [(''a'', ''s''), (''b'', ''s'')]\<rparr>)],
      stores_key = [(''s'', [(''type'', ''T'')])]\<rparr>"

lemma marshal_shared_heap:
  "fst (marshal_pipelines marshal_canals [(''p1'', 0)] shared_heap) = Inr shared_document"
  by (simp add: marshal_pipelines_def marshal_canals_def marshal_pipeline_def
      marshal_store_def unique_name_free shared_document_def
      shared_heap_pipeline shared_heap_dicts shared_heap_stores shared_heap_components
      sample_stores Let_def)

text \<open>
  C9. \<^verbatim>\<open>marshal_pipelines\<close> writes to no object of the caller, whether it returns or
  raises: the pipelines, the components and the stores are as before, and so is every
  dictionary that existed before the call, the connections of each pipeline among them.
  The assignments of line 207 go to the copy made at line 187.
\<close>

theorem marshal_keeps_pipelines:
  assumes "marshal_pipelines marshal_canals_pipelines pipelines h = (r, h')"
  shows "pipelines_h h' = pipelines_h h \<and> components_h h' = components_h h \<and>
         stores_h h' = stores_h h \<and>
         (\<forall>d. d < next_dict h \<longrightarrow> dicts_h h' d = dicts_h h d) \<and>
         (\<forall>p. document_stores_connections (pipelines_h h p) < next_dict h \<longrightarrow>
              document_stores (pipelines_h h' p) = document_stores (pipelines_h h p) \<and>
              dicts_h h' (document_stores_connections (pipelines_h h' p))
                = dicts_h h (document_stores_connections (pipelines_h h p))) \<and>
         (\<forall>c. document_store (components_h h' c) = document_store (components_h h c))"
  using marshal_pipelines_keeps [OF assms] by (simp add: objects_kept_def)

theorem marshal_keeps_pipelines_witness:
  "fst (marshal_pipelines marshal_canals [(''p1'', 0)] shared_heap) = Inr shared_document \<and>
   document_stores_connections (pipelines_h shared_heap 0) < next_dict shared_heap \<and>
   document_stores (pipelines_h (snd (marshal_pipelines marshal_canals [(''p1'', 0)] shared_heap)) 0)
     = [(''s'', 0)] \<and>
   dicts_h (snd (marshal_pipelines marshal_canals [(''p1'', 0)] shared_heap))
       (document_stores_connections
          (pipelines_h (snd (marshal_pipelines marshal_canals [(''p1'', 0)] shared_heap)) 0))
     = [(''a'', ''s''), (''b'', ''s'')] \<and>
   document_store
       (components_h (snd (marshal_pipelines marshal_canals [(''p1'', 0)] shared_heap)) 0)
     = Some 0"
  using marshal_keeps_pipelines
    [where marshal_canals_pipelines = marshal_canals and pipelines = "[(''p1'', 0)]"
       and h = shared_heap, OF surjective_pairing]
  by (simp add: marshal_shared_heap shared_heap_pipeline shared_heap_dicts
      shared_heap_components)

section \<open>Unmarshalling\<close>

text \<open>
  The connections of all pipelines of a document, in the order in which
  \<^verbatim>\<open>unmarshal_pipelines\<close> goes through them.
\<close>

fun all_connections :: "'gs entry list \<Rightarrow> (string \<times> string) list" where
  "all_connections [] = []"
| "all_connections (pipeline # rest) =
     (case store_connections_key pipeline of None \<Rightarrow> [] | Some connections \<Rightarrow> connections)
       @ all_connections rest"

text \<open>
  Two heaps that differ at most in the components at the addresses that \<open>target\<close> holds
  for, and the components that a list of connections names.
\<close>

definition components_written ::
  "(ref \<Rightarrow> bool) \<Rightarrow> ('g, 'v) heap \<Rightarrow> ('g, 'v) heap \<Rightarrow> bool" where
  "components_written target h h' \<longleftrightarrow>
     pipelines_h h' = pipelines_h h \<and> dicts_h h' = dicts_h h \<and> stores_h h' = stores_h h \<and>
     next_dict h' = next_dict h \<and> next_component h' = next_component h \<and>
     next_store h' = next_store h \<and>
     (\<forall>a. \<not> target a \<longrightarrow> components_h h' a = components_h h a)"

lemma components_written_refl: "components_written target h h"
  by (simp add: components_written_def)

lemma components_written_trans:
  "components_written target h h1 \<Longrightarrow> components_written target h1 h2 \<Longrightarrow>
   components_written target h h2"
  by (simp add: components_written_def)

lemma components_written_mono:
  "components_written target h h' \<Longrightarrow> (\<And>a. target a \<Longrightarrow> target' a) \<Longrightarrow>
   components_written target' h h'"
  by (auto simp add: components_written_def)

definition targets :: "(string \<times> string) list \<Rightarrow> ref dict \<Rightarrow> ref \<Rightarrow> bool" where
  "targets connections components a \<longleftrightarrow>
     (\<exists>c n. (c, n) \<in> set connections \<and> map_of components c = Some a)"

lemma targets_Cons:
  "targets ((c, n) # rest) components a \<longleftrightarrow>
     map_of components c = Some a \<or> targets rest components a"
  by (auto simp add: targets_def)

lemma reconnect_stores_writes:
  "reconnect_stores connections stores components h = (r, h') \<Longrightarrow>
   components_written (targets connections components) h h'"
proof (induction connections arbitrary: h)
  case Nil
  then show ?case by (simp add: components_written_refl)
next
  case (Cons x rest)
  obtain c n where x: "x = (c, n)" by (cases x)
  show ?case
  proof (cases "map_of stores n")
    case None
    with Cons.prems x show ?thesis by (simp add: components_written_refl)
  next
    case (Some s)
    note s = this
    show ?thesis
    proof (cases "map_of components c")
      case None
      with Cons.prems x s show ?thesis by (simp add: components_written_refl)
    next
      case (Some a)
      define h1 where "h1 = h\<lparr>components_h := (components_h h)
          (a := (components_h h a)\<lparr>document_store := Some s\<rparr>)\<rparr>"
      from Cons.prems x s Some have "reconnect_stores rest stores components h1 = (r, h')"
        by (simp add: h1_def)
      then have "components_written (targets rest components) h1 h'" by (rule Cons.IH)
      then have 1: "components_written (targets x_rest components) h1 h'"
        if "x_rest = (c, n) # rest" for x_rest
        using that by (auto simp add: targets_Cons elim: components_written_mono)
      have "components_written (targets ((c, n) # rest) components) h h1"
        using Some by (simp add: components_written_def h1_def targets_Cons)
      with 1 [OF refl] x show ?thesis by (auto intro: components_written_trans)
    qed
  qed
qed

lemma reconnect_stores_append:
  "reconnect_stores (xs @ ys) stores components h =
     (case reconnect_stores xs stores components h of
        (Inl e, h') \<Rightarrow> (Inl e, h')
      | (Inr u, h') \<Rightarrow> reconnect_stores ys stores components h')"
  by (induction xs arbitrary: h) (auto split: option.splits)

lemma reconnect_pipelines_success:
  "reconnect_pipelines entries stores components h = (Inr u, h') \<Longrightarrow>
   reconnect_stores (all_connections entries) stores components h = (Inr u, h') \<and>
   list_all (\<lambda>e. store_connections_key e \<noteq> None) entries"
proof (induction entries arbitrary: h)
  case Nil
  then show ?case by simp
next
  case (Cons e entries)
  from Cons.prems obtain connections h1 where
    1: "store_connections_key e = Some connections" and
    2: "reconnect_stores connections stores components h = (Inr (), h1)" and
    3: "reconnect_pipelines entries stores components h1 = (Inr u, h')"
    by (auto split: option.splits prod.splits sum.splits)
  from Cons.IH [OF 3] 1 2 show ?case by (simp add: reconnect_stores_append)
qed

lemma reconnect_stores_raises:
  "reconnect_stores connections stores components h = (Inl e, h') \<Longrightarrow> e = KeyError"
  by (induction connections arbitrary: h) (auto split: option.splits)

lemma reconnect_pipelines_raises:
  "reconnect_pipelines entries stores components h = (Inl e, h') \<Longrightarrow> e = KeyError"
  by (induction entries arbitrary: h)
    (auto split: option.splits prod.splits sum.splits dest: reconnect_stores_raises)

lemma reconnect_pipelines_writes:
  "reconnect_pipelines entries stores components h = (r, h') \<Longrightarrow>
   components_written (\<lambda>a. a \<in> snd ` set components) h h'"
proof (induction entries arbitrary: h)
  case Nil
  then show ?case by (simp add: components_written_refl)
next
  case (Cons e entries)
  have sub: "components_written (\<lambda>a. a \<in> snd ` set components) h1 h2"
    if "reconnect_stores connections stores components h1 = (r1, h2)"
    for connections h1 h2 r1
    using reconnect_stores_writes [OF that]
    by (rule components_written_mono) (auto simp add: targets_def dest!: map_of_SomeD intro: rev_image_eqI)
  show ?case
  proof (cases "store_connections_key e")
    case None
    with Cons.prems show ?thesis by (simp add: components_written_refl)
  next
    case (Some connections)
    obtain r1 h1 where 1: "reconnect_stores connections stores components h = (r1, h1)"
      by (cases "reconnect_stores connections stores components h")
    show ?thesis
    proof (cases r1)
      case (Inl e1)
      with Cons.prems Some 1 sub [OF 1] show ?thesis by simp
    next
      case (Inr u)
      with Cons.prems Some 1 have "reconnect_pipelines entries stores components h1 = (r, h')"
        by simp
      from sub [OF 1] Cons.IH [OF this] show ?thesis by (rule components_written_trans)
    qed
  qed
qed

lemma reconnect_stores_bound:
  "reconnect_stores connections stores components h = (Inr u, h') \<Longrightarrow>
   (c, n) \<in> set connections \<Longrightarrow>
   \<exists>s a. map_of stores n = Some s \<and> map_of components c = Some a"
  by (induction connections arbitrary: h) (auto split: option.splits)

text \<open>
  The store that a reconnected component holds is the one of some connection that names
  the component.
\<close>

lemma reconnect_stores_provenance:
  "reconnect_stores connections stores components h = (Inr u, h') \<Longrightarrow>
   targets connections components a \<Longrightarrow>
   \<exists>c n s. (c, n) \<in> set connections \<and> map_of components c = Some a \<and>
           map_of stores n = Some s \<and> document_store (components_h h' a) = Some s"
proof (induction connections arbitrary: h)
  case Nil
  then show ?case by (simp add: targets_def)
next
  case (Cons x rest)
  obtain c n where x: "x = (c, n)" by (cases x)
  from Cons.prems(1) x obtain s b where s: "map_of stores n = Some s"
    and b: "map_of components c = Some b"
    and rest: "reconnect_stores rest stores components
        (h\<lparr>components_h := (components_h h)
          (b := (components_h h b)\<lparr>document_store := Some s\<rparr>)\<rparr>) = (Inr u, h')"
    by (auto split: option.splits)
  show ?case
  proof (cases "targets rest components a")
    case True
    from Cons.IH [OF rest True] show ?thesis by auto
  next
    case False
    with Cons.prems(2) x b have ab: "a = b" by (simp add: targets_Cons)
    from reconnect_stores_writes [OF rest] False
    have "components_h h' a = (components_h h b)\<lparr>document_store := Some s\<rparr>"
      by (simp add: components_written_def ab)
    with x s b ab show ?thesis by auto
  qed
qed

lemma update_absent: "k \<notin> set (map fst al) \<Longrightarrow> AList.update k v al = al @ [(k, v)]"
  by (induction al) auto

lemma update_values: "snd ` set (AList.update k v al) \<subseteq> insert v (snd ` set al)"
  by (induction al) auto

text \<open>
  The second heap has every object of the first unchanged, and possibly new stores and
  components.
\<close>

definition old_objects_kept :: "('g, 'v) heap \<Rightarrow> ('g, 'v) heap \<Rightarrow> bool" where
  "old_objects_kept h h' \<longleftrightarrow>
     pipelines_h h' = pipelines_h h \<and> dicts_h h' = dicts_h h \<and> next_dict h' = next_dict h \<and>
     next_store h \<le> next_store h' \<and> next_component h \<le> next_component h' \<and>
     (\<forall>s. s < next_store h \<longrightarrow> stores_h h' s = stores_h h s) \<and>
     (\<forall>a. a < next_component h \<longrightarrow> components_h h' a = components_h h a)"

lemma old_objects_kept_refl: "old_objects_kept h h"
  by (simp add: old_objects_kept_def)

lemma old_objects_kept_trans:
  "old_objects_kept h h1 \<Longrightarrow> old_objects_kept h1 h2 \<Longrightarrow> old_objects_kept h h2"
  by (auto simp add: old_objects_kept_def)

lemma unmarshal_stores_keeps:
  "unmarshal_stores registry xs stores h = (r, h') \<Longrightarrow>
   old_objects_kept h h' \<and> components_h h' = components_h h \<and>
   next_component h' = next_component h"
proof (induction xs arbitrary: stores h)
  case Nil
  then show ?case by (simp add: old_objects_kept_refl)
next
  case (Cons x xs)
  obtain store_name store_data where x: "x = (store_name, store_data)" by (cases x)
  show ?case
  proof (cases "\<exists>t from_dict obj. map_of store_data ''type'' = Some t \<and>
      registry t = Some from_dict \<and> from_dict store_data = Inr obj")
    case False
    with Cons.prems x have "h' = h" by (auto split: option.splits sum.splits)
    then show ?thesis by (simp add: old_objects_kept_refl)
  next
    case True
    then obtain t from_dict obj where 1: "map_of store_data ''type'' = Some t"
      "registry t = Some from_dict" "from_dict store_data = Inr obj" by blast
    define h1 where "h1 = h\<lparr>stores_h := (stores_h h)(next_store h := obj),
        next_store := Suc (next_store h)\<rparr>"
    from Cons.prems x 1 have "unmarshal_stores registry xs
        (AList.update store_name (next_store h) stores) h1 = (r, h')"
      by (simp add: h1_def)
    from Cons.IH [OF this] have "old_objects_kept h1 h'" "components_h h' = components_h h1"
      "next_component h' = next_component h1" by simp_all
    moreover have "old_objects_kept h h1" by (simp add: old_objects_kept_def h1_def)
    ultimately show ?thesis by (auto simp add: h1_def intro: old_objects_kept_trans)
  qed
qed

lemma unmarshal_stores_success:
  assumes "unmarshal_stores registry xs stores h = (Inr stores', h')"
  shows "next_store h' = next_store h + length xs \<and>
         set (map fst stores') = set (map fst stores) \<union> set (map fst xs) \<and>
         (distinct (map fst xs) \<and> set (map fst xs) \<inter> set (map fst stores) = {} \<longrightarrow>
            stores' = stores @ zip (map fst xs) [next_store h ..< next_store h + length xs])"
  using assms
proof (induction xs arbitrary: stores h)
  case Nil
  then show ?case by simp
next
  case (Cons x xs)
  obtain store_name store_data where x: "x = (store_name, store_data)" by (cases x)
  from Cons.prems x obtain obj where
    rest: "unmarshal_stores registry xs (AList.update store_name (next_store h) stores)
        (h\<lparr>stores_h := (stores_h h)(next_store h := obj),
           next_store := Suc (next_store h)\<rparr>) = (Inr stores', h')"
    by (auto split: option.splits sum.splits)
  note IH = Cons.IH [OF rest]
  have keys: "set (map fst (AList.update store_name (next_store h) stores))
      = insert store_name (set (map fst stores))"
    using dom_update [of store_name "next_store h" stores] by simp
  have "next_store h' = next_store h + length (x # xs)" using IH by simp
  moreover have "set (map fst stores') = set (map fst stores) \<union> set (map fst (x # xs))"
    using IH keys x by auto
  moreover have "stores' = stores @ zip (map fst (x # xs))
      [next_store h ..< next_store h + length (x # xs)]"
    if d: "distinct (map fst (x # xs))"
      and i: "set (map fst (x # xs)) \<inter> set (map fst stores) = {}"
  proof -
    from i x have fresh: "store_name \<notin> set (map fst stores)" by auto
    then have u: "AList.update store_name (next_store h) stores
        = stores @ [(store_name, next_store h)]" by (rule update_absent)
    from d i x have "distinct (map fst xs)"
      "set (map fst xs) \<inter> set (map fst (AList.update store_name (next_store h) stores)) = {}"
      unfolding keys by auto
    with IH have "stores' = AList.update store_name (next_store h) stores
        @ zip (map fst xs) [Suc (next_store h) ..< Suc (next_store h) + length xs]"
      by simp
    moreover have "[next_store h ..< next_store h + length (x # xs)]
        = next_store h # [Suc (next_store h) ..< Suc (next_store h) + length xs]"
      by (simp add: upt_conv_Cons del: upt_Suc)
    ultimately show ?thesis using u x by simp
  qed
  ultimately show ?case by blast
qed

text \<open>The components of the dictionary are at addresses that were free in the heap.\<close>

definition fresh_components :: "('g, 'v) heap \<Rightarrow> ref dict \<Rightarrow> bool" where
  "fresh_components h components = list_all (\<lambda>kv. next_component h \<le> snd kv) components"

lemma fresh_components_update:
  "fresh_components h components \<Longrightarrow> next_component h \<le> a \<Longrightarrow>
   fresh_components h (AList.update k a components)"
proof -
  assume 1: "fresh_components h components" and 2: "next_component h \<le> a"
  have "next_component h \<le> snd kv" if "kv \<in> set (AList.update k a components)" for kv
  proof -
    from that have "snd kv \<in> snd ` set (AList.update k a components)" by (rule imageI)
    with update_values [of k a components] have "snd kv = a \<or> snd kv \<in> snd ` set components"
      by auto
    with 1 2 show ?thesis by (auto simp add: fresh_components_def list_all_iff)
  qed
  then show ?thesis by (simp add: fresh_components_def list_all_iff)
qed

lemma new_components_keeps:
  "new_components objs components h = (components', h') \<Longrightarrow>
   old_objects_kept h h' \<and> stores_h h' = stores_h h \<and> next_store h' = next_store h \<and>
   set (map fst components') = set (map fst components) \<union> set (map fst objs) \<and>
   (fresh_components h0 components \<and> next_component h0 \<le> next_component h
      \<longrightarrow> fresh_components h0 components')"
proof (induction objs arbitrary: components h)
  case Nil
  then show ?case by (simp add: old_objects_kept_refl)
next
  case (Cons x objs)
  obtain component_name obj where x: "x = (component_name, obj)" by (cases x)
  define h1 where "h1 = h\<lparr>components_h := (components_h h)(next_component h := obj),
      next_component := Suc (next_component h)\<rparr>"
  from Cons.prems x have rest: "new_components objs
      (AList.update component_name (next_component h) components) h1 = (components', h')"
    by (simp add: h1_def)
  note IH = Cons.IH [OF rest]
  have k: "old_objects_kept h h1" by (simp add: old_objects_kept_def h1_def)
  have keys: "set (map fst (AList.update component_name (next_component h) components))
      = insert component_name (set (map fst components))"
    using dom_update [of component_name "next_component h" components] by simp
  have "old_objects_kept h h'" using k IH by (auto intro: old_objects_kept_trans)
  moreover have "stores_h h' = stores_h h" "next_store h' = next_store h"
    using IH by (simp_all add: h1_def)
  moreover have "set (map fst components') = set (map fst components) \<union> set (map fst (x # objs))"
    using IH keys x by auto
  moreover have "fresh_components h0 components'"
    if "fresh_components h0 components" "next_component h0 \<le> next_component h"
    using IH that fresh_components_update [of h0 components "next_component h" component_name]
    by (simp add: h1_def)
  ultimately show ?case by blast
qed

lemma connections_of_entry:
  "e \<in> set entries \<Longrightarrow> store_connections_key e = Some connections \<Longrightarrow>
   set connections \<subseteq> set (all_connections entries)"
  by (induction entries) auto


lemma unmarshal_pipelines_steps:
  assumes "unmarshal_pipelines registry canals_components canals_pipelines data h = (r, h')"
  obtains (stores_raise) e where "unmarshal_stores registry (stores_key data) [] h = (Inl e, h')"
      and "r = Inl e"
    | (components_raise) stores e where
      "unmarshal_stores registry (stores_key data) [] h = (Inr stores, h')"
      and "canals_components data = Inl e" and "r = Inl e"
    | (reconnect) stores h1 objs components h2 r3 where
      "unmarshal_stores registry (stores_key data) [] h = (Inr stores, h1)"
      and "canals_components data = Inr objs"
      and "new_components objs [] h1 = (components, h2)"
      and "reconnect_pipelines (map snd (pipelines_key data)) stores components h2 = (r3, h')"
      and "r = (case r3 of Inl e \<Rightarrow> Inl e
                | Inr u \<Rightarrow> (case canals_pipelines data components h' of
                             Inl e \<Rightarrow> Inl e | Inr pipelines \<Rightarrow> Inr pipelines))"
proof -
  obtain r1 h1 where 1: "unmarshal_stores registry (stores_key data) [] h = (r1, h1)"
    by (cases "unmarshal_stores registry (stores_key data) [] h")
  show ?thesis
  proof (cases r1)
    case (Inl e)
    with assms 1 show ?thesis by (auto simp add: unmarshal_pipelines_def intro: stores_raise)
  next
    case (Inr stores)
    note stores = this
    show ?thesis
    proof (cases "canals_components data")
      case (Inl e)
      with assms 1 stores show ?thesis
        by (auto simp add: unmarshal_pipelines_def intro: components_raise)
    next
      case (Inr objs)
      obtain components h2 where 2: "new_components objs [] h1 = (components, h2)"
        by (cases "new_components objs [] h1")
      obtain r3 h3 where 3:
        "reconnect_pipelines (map snd (pipelines_key data)) stores components h2 = (r3, h3)"
        by (cases "reconnect_pipelines (map snd (pipelines_key data)) stores components h2")
      from assms 1 stores Inr 2 3 have "h' = h3"
        and "r = (case r3 of Inl e \<Rightarrow> Inl e
                | Inr u \<Rightarrow> (case canals_pipelines data components h3 of
                             Inl e \<Rightarrow> Inl e | Inr pipelines \<Rightarrow> Inr pipelines))"
        by (auto simp add: unmarshal_pipelines_def split: sum.splits)
      with 1 stores Inr 2 3 show ?thesis by (auto intro: reconnect)
    qed
  qed
qed

lemma fresh_components_Nil: "fresh_components h []"
  by (simp add: fresh_components_def)

lemma fresh_components_later:
  "fresh_components h components \<Longrightarrow> next_component h' = next_component h \<Longrightarrow>
   fresh_components h' components"
  by (simp add: fresh_components_def)

lemma unmarshal_pipelines_keeps:
  assumes "unmarshal_pipelines registry canals_components canals_pipelines data h = (r, h')"
  shows "old_objects_kept h h'"
  using assms
proof (cases rule: unmarshal_pipelines_steps)
  case (stores_raise e)
  then show ?thesis by (simp add: unmarshal_stores_keeps)
next
  case (components_raise stores e)
  then show ?thesis by (simp add: unmarshal_stores_keeps)
next
  case (reconnect stores h1 objs components h2 r3)
  from unmarshal_stores_keeps [OF reconnect(1)] have 1: "old_objects_kept h h1" by simp
  from new_components_keeps [OF reconnect(3), of h1]
  have 2: "old_objects_kept h1 h2" and f: "fresh_components h1 components"
    by (simp_all add: fresh_components_Nil)
  from 1 2 have 3: "old_objects_kept h h2" by (rule old_objects_kept_trans)
  from 1 have le: "next_component h \<le> next_component h1" by (simp add: old_objects_kept_def)
  have "a \<notin> snd ` set components" if "a < next_component h" for a
  proof
    assume "a \<in> snd ` set components"
    with f have "next_component h1 \<le> a" by (auto simp add: fresh_components_def list_all_iff)
    with le that show False by simp
  qed
  with reconnect_pipelines_writes [OF reconnect(4)] 3 show ?thesis
    by (simp add: components_written_def old_objects_kept_def)
qed

text \<open>
  C5. A document in which a pipeline's \<^verbatim>\<open>store_connections\<close> name a store that is no
  key of \<^verbatim>\<open>"stores"\<close>, or a component that Canals did not rebuild, makes
  \<^verbatim>\<open>unmarshal_pipelines\<close> raise: it returns no pipelines. The exception is the
  \<^verbatim>\<open>KeyError\<close> of line 237 unless the stores or the components failed to be rebuilt
  first. The objects that existed before the call are as they were.
\<close>

theorem dangling_connection_raises:
  assumes "(pipeline_name, pipeline) \<in> set (pipelines_key data)"
    and "store_connections_key pipeline = Some connections"
    and "(component_name, store_name) \<in> set connections"
    and "store_name \<notin> set (map fst (stores_key data)) \<or>
         (\<exists>objs. canals_components data = Inr objs \<and> component_name \<notin> set (map fst objs))"
  shows "\<exists>e h'. unmarshal_pipelines registry canals_components canals_pipelines data h = (Inl e, h') \<and>
           ((\<exists>stores h1. unmarshal_stores registry (stores_key data) [] h = (Inr stores, h1)) \<and>
            (\<exists>objs. canals_components data = Inr objs) \<longrightarrow> e = KeyError) \<and>
           pipelines_h h' = pipelines_h h \<and> dicts_h h' = dicts_h h \<and>
           (\<forall>s. s < next_store h \<longrightarrow> stores_h h' s = stores_h h s) \<and>
           (\<forall>a. a < next_component h \<longrightarrow> components_h h' a = components_h h a)"
proof -
  obtain r h' where u:
    "unmarshal_pipelines registry canals_components canals_pipelines data h = (r, h')"
    by (cases "unmarshal_pipelines registry canals_components canals_pipelines data h")
  from unmarshal_pipelines_keeps [OF u] have kept:
    "pipelines_h h' = pipelines_h h \<and> dicts_h h' = dicts_h h \<and>
     (\<forall>s. s < next_store h \<longrightarrow> stores_h h' s = stores_h h s) \<and>
     (\<forall>a. a < next_component h \<longrightarrow> components_h h' a = components_h h a)"
    by (simp add: old_objects_kept_def)
  from u have "\<exists>e. r = Inl e \<and>
      ((\<exists>stores h1. unmarshal_stores registry (stores_key data) [] h = (Inr stores, h1)) \<and>
       (\<exists>objs. canals_components data = Inr objs) \<longrightarrow> e = KeyError)"
  proof (cases rule: unmarshal_pipelines_steps)
    case (stores_raise e)
    then show ?thesis by simp
  next
    case (components_raise stores e)
    then show ?thesis by simp
  next
    case (reconnect stores h1 objs components h2 r3)
    have "r3 = Inl KeyError"
    proof (cases r3)
      case (Inl e)
      with reconnect(4) show ?thesis by (auto dest: reconnect_pipelines_raises)
    next
      case (Inr v)
      with reconnect(4) have
        "reconnect_stores (all_connections (map snd (pipelines_key data))) stores components h2
           = (Inr v, h')"
        by (simp add: reconnect_pipelines_success)
      moreover from assms(1) have "pipeline \<in> set (map snd (pipelines_key data))" by force
      with assms(2,3) have "(component_name, store_name)
          \<in> set (all_connections (map snd (pipelines_key data)))"
        using connections_of_entry by blast
      ultimately obtain s a where "map_of stores store_name = Some s"
        "map_of components component_name = Some a"
        using reconnect_stores_bound by blast
      then have "store_name \<in> set (map fst stores)" "component_name \<in> set (map fst components)"
        by (auto dest!: map_of_SomeD intro: rev_image_eqI)
      moreover from unmarshal_stores_success [OF reconnect(1)]
      have "set (map fst stores) = set (map fst (stores_key data))" by simp
      moreover from new_components_keeps [OF reconnect(3), of h1]
      have "set (map fst components) = set (map fst objs)" by simp
      ultimately show ?thesis using assms(4) reconnect(2) by auto
    qed
    with reconnect(5) show ?thesis by simp
  qed
  with u kept show ?thesis by blast
qed

lemma marshal_pipeline_success:
  assumes "stripped ms" and "length ms \<le> 1"
    and "marshal_pipeline pipeline_name p entries ms h = (Inr (entries', ms'), h')"
  shows "stripped ms' \<and> length ms' \<le> 1 \<and>
         (\<exists>e. map_of entries pipeline_name = Some e \<and>
              entries' = AList.update pipeline_name
                (e\<lparr>store_connections_key :=
                     Some (dicts_h h (document_stores_connections (pipelines_h h p)))\<rparr>)
                entries)"
proof -
  define h1 where "h1 = h\<lparr>dicts_h := (dicts_h h)
      (next_dict h := dicts_h h (document_stores_connections (pipelines_h h p))),
      next_dict := Suc (next_dict h)\<rparr>"
  obtain r2 h2 where 2: "marshal_stores (next_dict h) (document_stores (pipelines_h h1 p)) ms h1
      = (r2, h2)"
    by (cases "marshal_stores (next_dict h) (document_stores (pipelines_h h1 p)) ms h1")
  from assms(3) 2 obtain e where r2: "r2 = Inr ms'" and e: "map_of entries pipeline_name = Some e"
    and entries': "entries' = AList.update pipeline_name
        (e\<lparr>store_connections_key := Some (dicts_h h2 (next_dict h))\<rparr>) entries"
    by (auto simp add: marshal_pipeline_def Let_def h1_def split: sum.splits option.splits)
  from marshal_stores_success [OF assms(1,2) 2 [unfolded r2]]
  have "h2 = h1" "stripped ms'" "length ms' \<le> 1" by simp_all
  with e entries' show ?thesis by (simp add: h1_def)
qed

lemma marshal_loop_success:
  assumes "stripped ms" and "length ms \<le> 1"
    and "marshal_loop ps entries ms h = (Inr (entries', ms'), h')"
  shows "stripped ms' \<and> length ms' \<le> 1 \<and>
         (\<forall>k. k \<notin> set (map fst ps) \<longrightarrow> map_of entries' k = map_of entries k) \<and>
         (distinct (map fst ps) \<longrightarrow>
            (\<forall>pipeline_name p. (pipeline_name, p) \<in> set ps \<longrightarrow>
               document_stores_connections (pipelines_h h p) < next_dict h \<longrightarrow>
               (\<exists>e. map_of entries' pipeline_name = Some e \<and>
                    store_connections_key e
                      = Some (dicts_h h (document_stores_connections (pipelines_h h p))))))"
  using assms
proof (induction ps arbitrary: entries ms h)
  case Nil
  then show ?case by simp
next
  case (Cons x ps)
  obtain qn q where x: "x = (qn, q)" by (cases x)
  from Cons.prems(3) x obtain entries1 ms1 h1 where
    1: "marshal_pipeline qn q entries ms h = (Inr (entries1, ms1), h1)" and
    2: "marshal_loop ps entries1 ms1 h1 = (Inr (entries', ms'), h')"
    by (auto split: prod.splits sum.splits)
  from marshal_pipeline_success [OF Cons.prems(1,2) 1] obtain e where
    ms1: "stripped ms1" "length ms1 \<le> 1" and e: "map_of entries qn = Some e" and
    entries1: "entries1 = AList.update qn
        (e\<lparr>store_connections_key :=
             Some (dicts_h h (document_stores_connections (pipelines_h h q)))\<rparr>) entries"
    by blast
  note IH = Cons.IH [OF ms1 2]
  from marshal_pipeline_keeps [OF 1] have kept: "objects_kept h h1" .
  have other: "map_of entries' k = map_of entries k" if "k \<notin> set (map fst (x # ps))" for k
  proof -
    from that x have "k \<noteq> qn" "k \<notin> set (map fst ps)" by auto
    with IH entries1 show ?thesis by (simp add: update_conv')
  qed
  have conn: "\<exists>e. map_of entries' pipeline_name = Some e \<and>
      store_connections_key e = Some (dicts_h h (document_stores_connections (pipelines_h h p)))"
    if d: "distinct (map fst (x # ps))" and m: "(pipeline_name, p) \<in> set (x # ps)"
      and lt: "document_stores_connections (pipelines_h h p) < next_dict h"
    for pipeline_name p
  proof (cases "(pipeline_name, p) \<in> set ps")
    case True
    from d have dps: "distinct (map fst ps)" by simp
    from kept lt
    have lt1: "document_stores_connections (pipelines_h h1 p) < next_dict h1"
      and same: "dicts_h h1 (document_stores_connections (pipelines_h h1 p))
         = dicts_h h (document_stores_connections (pipelines_h h p))"
      by (simp_all add: objects_kept_def)
    from IH dps True lt1 obtain e' where "map_of entries' pipeline_name = Some e'"
      "store_connections_key e'
         = Some (dicts_h h1 (document_stores_connections (pipelines_h h1 p)))"
      by blast
    with same show ?thesis by simp
  next
    case False
    with m x have eq: "pipeline_name = qn" "p = q" by auto
    from d x have "qn \<notin> set (map fst ps)" by simp
    with IH have "map_of entries' qn = map_of entries1 qn" by simp
    with entries1 eq show ?thesis by (simp add: update_conv')
  qed
  from IH other conn show ?case by blast
qed

lemma stripped_Nil: "stripped []"
  by (simp add: stripped_def)

lemma marshal_pipelines_success:
  assumes "marshal_pipelines marshal_canals_pipelines pipelines h = (Inr data, h')"
  shows "stripped (stores_key data) \<and> length (stores_key data) \<le> 1 \<and>
         (distinct (map fst pipelines) \<longrightarrow>
            (\<forall>pipeline_name p. (pipeline_name, p) \<in> set pipelines \<longrightarrow>
               document_stores_connections (pipelines_h h p) < next_dict h \<longrightarrow>
               (\<exists>e. map_of (pipelines_key data) pipeline_name = Some e \<and>
                    store_connections_key e
                      = Some (dicts_h h (document_stores_connections (pipelines_h h p))))))"
proof -
  from assms obtain t entries0 entries where
    loop: "marshal_loop pipelines entries0 [] h = (Inr (entries, stores_key data), h')"
    and "pipelines_key data = entries"
    by (auto simp add: marshal_pipelines_def split: sum.splits prod.splits)
  with marshal_loop_success [OF stripped_Nil _ loop] show ?thesis by simp
qed

lemma single_lookup:
  "length al \<le> 1 \<Longrightarrow> map_of al k = Some v \<Longrightarrow> map_of al k' = Some v' \<Longrightarrow> v = v'"
  by (cases al) (auto split: if_splits)

text \<open>
  C3. For a document that \<^verbatim>\<open>marshal_pipelines\<close> returned, a call of
  \<^verbatim>\<open>unmarshal_pipelines\<close> that returns has built one new store object for each entry
  of \<^verbatim>\<open>"stores"\<close>, at addresses that differ from each other and from those of the
  existing stores, and every component that a pipeline's \<^verbatim>\<open>store_connections\<close> name
  holds the object built for the store name of the connection. Two components connected
  to one store name thus hold the same object. The connections in the document are those
  of the marshalled pipelines, whose names differ, being the keys of a dictionary.
\<close>

theorem round_trip_shares_store:
  assumes m: "marshal_pipelines marshal_canals_pipelines pipelines h0 = (Inr data, hm)"
    and u: "unmarshal_pipelines registry canals_components canals_pipelines data h
              = (Inr result, h')"
  shows "\<exists>stores h1 objs components h2.
      unmarshal_stores registry (stores_key data) [] h = (Inr stores, h1) \<and>
      canals_components data = Inr objs \<and>
      new_components objs [] h1 = (components, h2) \<and>
      map fst stores = map fst (stores_key data) \<and>
      map snd stores = [next_store h ..< next_store h + length (stores_key data)] \<and>
      next_store h' = next_store h + length (stores_key data) \<and>
      (\<forall>c n. (c, n) \<in> set (all_connections (map snd (pipelines_key data))) \<longrightarrow>
         (\<exists>s a. map_of stores n = Some s \<and> map_of components c = Some a \<and>
                document_store (components_h h' a) = Some s)) \<and>
      (distinct (map fst pipelines) \<longrightarrow>
         (\<forall>pipeline_name p. (pipeline_name, p) \<in> set pipelines \<longrightarrow>
            document_stores_connections (pipelines_h h0 p) < next_dict h0 \<longrightarrow>
            set (dicts_h h0 (document_stores_connections (pipelines_h h0 p)))
              \<subseteq> set (all_connections (map snd (pipelines_key data)))))"
  using u
proof (cases rule: unmarshal_pipelines_steps)
  case (stores_raise e)
  then show ?thesis by simp
next
  case (components_raise stores e)
  then show ?thesis by simp
next
  case (reconnect stores h1 objs components h2 r3)
  from marshal_pipelines_success [OF m] have
    short: "length (stores_key data) \<le> 1" and
    live: "distinct (map fst pipelines) \<longrightarrow>
       (\<forall>pipeline_name p. (pipeline_name, p) \<in> set pipelines \<longrightarrow>
          document_stores_connections (pipelines_h h0 p) < next_dict h0 \<longrightarrow>
          (\<exists>e. map_of (pipelines_key data) pipeline_name = Some e \<and>
               store_connections_key e
                 = Some (dicts_h h0 (document_stores_connections (pipelines_h h0 p)))))"
    by simp_all
  from short have "distinct (map fst (stores_key data))"
    by (cases "stores_key data") auto
  with unmarshal_stores_success [OF reconnect(1)] have
    n1: "next_store h1 = next_store h + length (stores_key data)" and
    stores: "stores = zip (map fst (stores_key data))
        [next_store h ..< next_store h + length (stores_key data)]"
    by simp_all
  from stores have fst_stores: "map fst stores = map fst (stores_key data)"
    and snd_stores: "map snd stores = [next_store h ..< next_store h + length (stores_key data)]"
    by simp_all
  from fst_stores short have short': "length stores \<le> 1"
    using length_map [of fst stores] by simp
  from reconnect(5) obtain v where r3: "r3 = Inr v" by (cases r3) auto
  from new_components_keeps [OF reconnect(3), of h1] have "next_store h2 = next_store h1"
    by simp
  moreover from reconnect_pipelines_writes [OF reconnect(4)]
  have "next_store h' = next_store h2" by (simp add: components_written_def)
  ultimately have n': "next_store h' = next_store h + length (stores_key data)"
    using n1 by simp
  from reconnect(4) r3 have rs:
    "reconnect_stores (all_connections (map snd (pipelines_key data))) stores components h2
       = (Inr v, h')"
    by (simp add: reconnect_pipelines_success)
  have shared: "\<exists>s a. map_of stores n = Some s \<and> map_of components c = Some a \<and>
      document_store (components_h h' a) = Some s"
    if cn: "(c, n) \<in> set (all_connections (map snd (pipelines_key data)))" for c n
  proof -
    from reconnect_stores_bound [OF rs cn] obtain s a where
      s: "map_of stores n = Some s" and a: "map_of components c = Some a" by blast
    from cn a have "targets (all_connections (map snd (pipelines_key data))) components a"
      by (auto simp add: targets_def)
    from reconnect_stores_provenance [OF rs this] obtain n' s' where
      "map_of stores n' = Some s'" "document_store (components_h h' a) = Some s'" by blast
    with single_lookup [OF short' s] s a show ?thesis by auto
  qed
  have copied: "set (dicts_h h0 (document_stores_connections (pipelines_h h0 p)))
      \<subseteq> set (all_connections (map snd (pipelines_key data)))"
    if "distinct (map fst pipelines)" "(pipeline_name, p) \<in> set pipelines"
      "document_stores_connections (pipelines_h h0 p) < next_dict h0" for pipeline_name p
  proof -
    from live that obtain e where e: "map_of (pipelines_key data) pipeline_name = Some e"
      and c: "store_connections_key e
          = Some (dicts_h h0 (document_stores_connections (pipelines_h h0 p)))"
      by blast
    from e have "e \<in> set (map snd (pipelines_key data))"
      by (auto dest!: map_of_SomeD intro: rev_image_eqI)
    then show ?thesis using c by (rule connections_of_entry)
  qed
  from reconnect(1,2,3) fst_stores snd_stores n' shared copied show ?thesis by blast
qed

lemma unmarshal_shared_stores:
  "unmarshal_stores sample_registry (stores_key shared_document) [] shared_heap
     = (Inr [(''s'', 4)],
        shared_heap\<lparr>stores_h := (stores_h shared_heap)
            (4 := \<lparr>haystack_document_store = True,
                   to_dict = [(''hash'', ''T''), (''type'', ''T'')]\<rparr>),
          next_store := 5\<rparr>)"
  by (simp add: shared_document_def sample_registry_def shared_heap_stores)

lemma unmarshal_shared_objs:
  "unmarshal_canals_components shared_document
     = Inr [(''a'', \<lparr>aware = True, document_store = None, document_store_name = None\<rparr>),
            (''b'', \<lparr>aware = True, document_store = None, document_store_name = None\<rparr>),
            (''c'', \<lparr>aware = False, document_store = None, document_store_name = None\<rparr>)]"
  by (simp add: shared_document_def unmarshal_canals_components_def)

lemma unmarshal_shared_components:
  "next_component h1 = 3 \<Longrightarrow>
   fst (new_components
     [(''a'', \<lparr>aware = True, document_store = None, document_store_name = None\<rparr>),
      (''b'', \<lparr>aware = True, document_store = None, document_store_name = None\<rparr>),
      (''c'', \<lparr>aware = False, document_store = None, document_store_name = None\<rparr>)] [] h1)
     = [(''a'', 3), (''b'', 4), (''c'', 5)]"
  by simp

lemma unmarshal_shared_document:
  "fst (unmarshal_pipelines sample_registry unmarshal_canals_components
          unmarshal_canals_pipelines shared_document shared_heap)
     = Inr [(''p1'', [(''a'', 3), (''b'', 4), (''c'', 5)])]"
  by (simp add: unmarshal_pipelines_def unmarshal_shared_stores unmarshal_shared_objs
      shared_heap_stores unmarshal_canals_pipelines_def)
    (simp add: shared_document_def shared_heap_stores unmarshal_canals_pipelines_def)


theorem round_trip_shares_store_witness:
  "fst (marshal_pipelines marshal_canals [(''p1'', 0)] shared_heap) = Inr shared_document \<and>
   fst (unmarshal_pipelines sample_registry unmarshal_canals_components
          unmarshal_canals_pipelines shared_document shared_heap)
     = Inr [(''p1'', [(''a'', 3), (''b'', 4), (''c'', 5)])] \<and>
   document_store (components_h (snd (unmarshal_pipelines sample_registry
       unmarshal_canals_components unmarshal_canals_pipelines shared_document shared_heap)) 3)
     = Some 4 \<and>
   document_store (components_h (snd (unmarshal_pipelines sample_registry
       unmarshal_canals_components unmarshal_canals_pipelines shared_document shared_heap)) 4)
     = Some 4 \<and>
   next_store (snd (unmarshal_pipelines sample_registry
       unmarshal_canals_components unmarshal_canals_pipelines shared_document shared_heap))
     = next_store shared_heap + 1"
proof -
  let ?h' = "snd (unmarshal_pipelines sample_registry unmarshal_canals_components
      unmarshal_canals_pipelines shared_document shared_heap)"
  have m: "marshal_pipelines marshal_canals [(''p1'', 0)] shared_heap
      = (Inr shared_document, snd (marshal_pipelines marshal_canals [(''p1'', 0)] shared_heap))"
    by (simp add: prod_eq_iff marshal_shared_heap)
  have u: "unmarshal_pipelines sample_registry unmarshal_canals_components
      unmarshal_canals_pipelines shared_document shared_heap
      = (Inr [(''p1'', [(''a'', 3), (''b'', 4), (''c'', 5)])], ?h')"
    by (simp add: prod_eq_iff unmarshal_shared_document)
  from round_trip_shares_store [OF m u] obtain stores h1 objs components h2 where
    1: "unmarshal_stores sample_registry (stores_key shared_document) [] shared_heap
          = (Inr stores, h1)" and
    2: "unmarshal_canals_components shared_document = Inr objs" and
    3: "new_components objs [] h1 = (components, h2)" and
    4: "next_store ?h' = next_store shared_heap + length (stores_key shared_document)" and
    5: "\<forall>c n. (c, n) \<in> set (all_connections (map snd (pipelines_key shared_document))) \<longrightarrow>
         (\<exists>s a. map_of stores n = Some s \<and> map_of components c = Some a \<and>
                document_store (components_h ?h' a) = Some s)"
    by blast
  from 1 have stores: "stores = [(''s'', 4)]" and "next_component h1 = 3"
    by (auto simp add: unmarshal_shared_stores shared_heap_stores)
  with 2 3 have components: "components = [(''a'', 3), (''b'', 4), (''c'', 5)]"
    using unmarshal_shared_components [of h1] by (simp add: unmarshal_shared_objs)
  have "(''a'', ''s'') \<in> set (all_connections (map snd (pipelines_key shared_document)))"
    "(''b'', ''s'') \<in> set (all_connections (map snd (pipelines_key shared_document)))"
    by (simp_all add: shared_document_def)
  with 5 stores components have "document_store (components_h ?h' 3) = Some 4"
    "document_store (components_h ?h' 4) = Some 4"
    by fastforce+
  moreover from 4 have "next_store ?h' = next_store shared_heap + 1"
    by (simp add: shared_document_def)
  ultimately show ?thesis using marshal_shared_heap unmarshal_shared_document by simp
qed

text \<open>The document of \<open>shared_heap\<close> with its table of stores emptied.\<close>

definition dangling_document :: "(unit, (string \<times> bool) list, string) document" where
  "dangling_document = shared_document\<lparr>stores_key := []\<rparr>"

theorem dangling_connection_raises_witness:
  "(''p1'', \<lparr>graph_section = [(''a'', True), (''b'', True), (''c'', False)],
             store_connections_key = Some [(''a'', ''s''), (''b'', ''s'')]\<rparr>)
     \<in> set (pipelines_key dangling_document) \<and>
   (''a'', ''s'') \<in> set [(''a'', ''s''), (''b'', ''s'')] \<and>
   ''s'' \<notin> set (map fst (stores_key dangling_document)) \<and>
   fst (unmarshal_pipelines sample_registry unmarshal_canals_components
          unmarshal_canals_pipelines dangling_document shared_heap) = Inl KeyError \<and>
   components_h (snd (unmarshal_pipelines sample_registry unmarshal_canals_components
          unmarshal_canals_pipelines dangling_document shared_heap)) 0
     = components_h shared_heap 0"
proof -
  let ?e = "\<lparr>graph_section = [(''a'', True), (''b'', True), (''c'', False)],
             store_connections_key = Some [(''a'', ''s''), (''b'', ''s'')]\<rparr>"
  have 1: "(''p1'', ?e) \<in> set (pipelines_key dangling_document)"
    by (simp add: dangling_document_def shared_document_def)
  have 2: "store_connections_key ?e = Some [(''a'', ''s''), (''b'', ''s'')]" by simp
  have 3: "(''a'', ''s'') \<in> set [(''a'', ''s''), (''b'', ''s'')]" by simp
  have 4: "''s'' \<notin> set (map fst (stores_key dangling_document))"
    by (simp add: dangling_document_def)
  then have 5: "''s'' \<notin> set (map fst (stores_key dangling_document)) \<or>
      (\<exists>objs. unmarshal_canals_components dangling_document = Inr objs \<and>
              ''a'' \<notin> set (map fst objs))" by (rule disjI1)
  from dangling_connection_raises
    [where canals_components = unmarshal_canals_components
       and canals_pipelines = unmarshal_canals_pipelines and registry = sample_registry
       and h = shared_heap and data = dangling_document, OF 1 2 3 5]
  obtain e h' where u: "unmarshal_pipelines sample_registry unmarshal_canals_components
        unmarshal_canals_pipelines dangling_document shared_heap = (Inl e, h')"
    and e: "(\<exists>stores h1. unmarshal_stores sample_registry (stores_key dangling_document) []
                shared_heap = (Inr stores, h1)) \<and>
            (\<exists>objs. unmarshal_canals_components dangling_document = Inr objs) \<longrightarrow> e = KeyError"
    and c: "\<forall>a. a < next_component shared_heap \<longrightarrow> components_h h' a = components_h shared_heap a"
    by blast
  have "\<exists>stores h1. unmarshal_stores sample_registry (stores_key dangling_document) []
      shared_heap = (Inr stores, h1)"
    by (simp add: dangling_document_def)
  moreover have "\<exists>objs. unmarshal_canals_components dangling_document = Inr objs"
    by (simp add: unmarshal_canals_components_def)
  ultimately have "e = KeyError" using e by blast
  moreover from c have "components_h h' 0 = components_h shared_heap 0"
    by (simp add: shared_heap_stores)
  ultimately show ?thesis using u 1 3 4 by simp
qed

section \<open>The binding of a component\<close>

text \<open>
  The component \<open>inst\<close>, added under \<open>name\<close>, is bound symmetrically in the pipeline:
  the connections give a store name for \<open>name\<close>, the pipeline's stores give an object for
  that store name, and the component remembers that store name and holds that object.
\<close>

definition bound_symmetrically :: "ref \<Rightarrow> string \<Rightarrow> ref \<Rightarrow> ('g, 'v) heap \<Rightarrow> bool" where
  "bound_symmetrically self name inst h =
     (case map_of (dicts_h h (document_stores_connections (pipelines_h h self))) name of
        None \<Rightarrow> False
      | Some n \<Rightarrow>
          (case map_of (document_stores (pipelines_h h self)) n of
             None \<Rightarrow> False
           | Some s \<Rightarrow>
               document_store_name (components_h h inst) = Some n \<and>
               document_store (components_h h inst) = Some s))"

text \<open>
  The operations that leave alone the binding of the component added under \<open>name\<close> to the
  store name \<open>n\<close>: registering a store under another name, and adding a component under
  another name.
\<close>

fun keeps_binding :: "string \<Rightarrow> string \<Rightarrow> operation \<Rightarrow> bool" where
  "keeps_binding name n (AddDocumentStore n' s) = (n' \<noteq> n)"
| "keeps_binding name n (AddComponent name' inst document_store_arg) = (name' \<noteq> name)"

lemma bound_symmetrically_iff:
  "bound_symmetrically self name inst h \<longleftrightarrow>
     (\<exists>n s. map_of (dicts_h h (document_stores_connections (pipelines_h h self))) name = Some n \<and>
            map_of (document_stores (pipelines_h h self)) n = Some s \<and>
            document_store_name (components_h h inst) = Some n \<and>
            document_store (components_h h inst) = Some s)"
  by (auto simp add: bound_symmetrically_def split: option.splits)

lemma add_document_store_keeps_binding:
  assumes "bound_symmetrically self name inst h"
    and "map_of (dicts_h h (document_stores_connections (pipelines_h h self))) name = Some n"
    and "n' \<noteq> n"
  shows "bound_symmetrically self name inst (snd (add_document_store self n' s' h)) \<and>
         map_of (dicts_h (snd (add_document_store self n' s' h))
           (document_stores_connections (pipelines_h (snd (add_document_store self n' s' h)) self)))
           name = Some n"
  using assms
  by (auto simp add: bound_symmetrically_iff add_document_store_def update_conv')

lemma register_component_keeps:
  "dicts_h (snd (register_component super_add_component self name' inst' h)) = dicts_h h"
  "components_h (snd (register_component super_add_component self name' inst' h)) = components_h h"
  "document_stores_connections
     (pipelines_h (snd (register_component super_add_component self name' inst' h)) self)
     = document_stores_connections (pipelines_h h self)"
  "document_stores (pipelines_h (snd (register_component super_add_component self name' inst' h)) self)
     = document_stores (pipelines_h h self)"
  by (auto simp add: register_component_def split: sum.splits)

lemma add_component_keeps_binding:
  assumes b: "bound_symmetrically self name inst h"
    and n: "map_of (dicts_h h (document_stores_connections (pipelines_h h self))) name = Some n"
    and ne: "name' \<noteq> name"
  shows "bound_symmetrically self name inst
           (snd (add_component super_add_component self name' inst' document_store_arg h)) \<and>
         map_of (dicts_h (snd (add_component super_add_component self name' inst' document_store_arg h))
           (document_stores_connections
             (pipelines_h (snd (add_component super_add_component self name' inst' document_store_arg h)) self)))
           name = Some n"
proof -
  let ?h' = "snd (add_component super_add_component self name' inst' document_store_arg h)"
  let ?d = "document_stores_connections (pipelines_h h self)"
  have registered: "bound_symmetrically self name inst h1 \<and>
      map_of (dicts_h h1 (document_stores_connections (pipelines_h h1 self))) name = Some n"
    if h0: "map_of (dicts_h h0 ?d) name = Some n"
      "components_h h0 inst = components_h h inst"
      "pipelines_h h0 = pipelines_h h"
      and h1: "h1 = snd (register_component super_add_component self name' inst' h0) \<or> h1 = h0"
    for h0 h1 :: "('a, 'b) heap"
  proof -
    from h1 have "dicts_h h1 = dicts_h h0" "components_h h1 = components_h h0"
      "document_stores_connections (pipelines_h h1 self)
         = document_stores_connections (pipelines_h h0 self)"
      "document_stores (pipelines_h h1 self) = document_stores (pipelines_h h0 self)"
      by (auto simp add: register_component_keeps)
    with b n h0 show ?thesis by (auto simp add: bound_symmetrically_iff)
  qed
  show ?thesis
  proof (cases "aware (components_h h inst') \<and> document_store (components_h h inst') = None \<and>
      truthy document_store_arg \<and>
      (\<exists>n' s'. document_store_arg = Some n' \<and> map_of (document_stores (pipelines_h h self)) n' = Some s')")
    case True
    then obtain n' s' where ds: "document_store_arg = Some n'"
      and s': "map_of (document_stores (pipelines_h h self)) n' = Some s'" by blast
    let ?h0 = "connect_store self name' inst' n' s' h"
    from True b have i: "inst' \<noteq> inst" by (auto simp add: bound_symmetrically_iff)
    from True ds s' have "?h' = snd (register_component super_add_component self name' inst' ?h0)"
      by (simp add: add_component_def Let_def)
    moreover from i have "components_h ?h0 inst = components_h h inst"
      "pipelines_h ?h0 = pipelines_h h"
      by (simp_all add: connect_store_def Let_def)
    moreover from n ne have "map_of (dicts_h ?h0 ?d) name = Some n"
      by (simp add: connect_store_def Let_def update_conv')
    ultimately show ?thesis by (intro registered [of ?h0]) simp_all
  next
    case False
    then have "?h' = snd (register_component super_add_component self name' inst' h) \<or> ?h' = h"
      by (auto simp add: add_component_def Let_def split: option.splits)
    with n show ?thesis by (intro registered [of h]) simp_all
  qed
qed

text \<open>
  C8. The claim is that every sequence of \<^verbatim>\<open>add_component\<close> and
  \<^verbatim>\<open>add_document_store\<close> keeps every bound component bound symmetrically.
  \<^verbatim>\<open>add_document_store\<close> overwrites the entry of a name and touches no component, so a
  component connected to that name goes on holding the object registered before. What
  holds: a call of \<^verbatim>\<open>add_component\<close> that returns after connecting a store binds the
  component symmetrically, and the binding stays through every sequence of operations on
  the pipeline that neither registers a store under that store name again nor adds a
  component under that component name again.
\<close>

theorem binding_kept:
  assumes "add_component super_add_component self name inst (Some n) h = (Inr (), h1)"
    and "aware (components_h h inst)" and "document_store (components_h h inst) = None"
    and "list_all (keeps_binding name n) operations"
  shows "bound_symmetrically self name inst h1 \<and>
         bound_symmetrically self name inst
           (run_operations super_add_component self operations h1)"
proof -
  from assms(1-3) obtain s where "n \<noteq> []"
    and s: "map_of (document_stores (pipelines_h h self)) n = Some s"
    and r: "register_component super_add_component self name inst
        (connect_store self name inst n s h) = (Inr (), h1)"
    by (auto simp add: add_component_def Let_def split: option.splits if_splits)
  from r have h1: "h1 = snd (register_component super_add_component self name inst
      (connect_store self name inst n s h))" by simp
  have n: "map_of (dicts_h h1 (document_stores_connections (pipelines_h h1 self))) name = Some n"
    unfolding h1 by (simp add: register_component_keeps) (simp add: connect_store_def Let_def update_conv')
  have b: "bound_symmetrically self name inst h1"
    unfolding h1 bound_symmetrically_iff using s
    by (simp add: register_component_keeps) (simp add: connect_store_def Let_def update_conv')
  have "bound_symmetrically self name inst (run_operations super_add_component self operations h2)"
    if "bound_symmetrically self name inst h2"
      "map_of (dicts_h h2 (document_stores_connections (pipelines_h h2 self))) name = Some n"
    for h2
    using that assms(4)
  proof (induction operations arbitrary: h2)
    case Nil
    then show ?case by simp
  next
    case (Cons operation operations)
    have "bound_symmetrically self name inst (apply_operation super_add_component self operation h2) \<and>
        map_of (dicts_h (apply_operation super_add_component self operation h2)
          (document_stores_connections
            (pipelines_h (apply_operation super_add_component self operation h2) self))) name = Some n"
    proof (cases operation)
      case (AddDocumentStore n' s')
      with Cons.prems show ?thesis by (simp add: add_document_store_keeps_binding)
    next
      case (AddComponent name' inst' document_store_arg)
      with Cons.prems show ?thesis by (simp add: add_component_keeps_binding)
    qed
    with Cons.IH Cons.prems(3) show ?case by simp
  qed
  from this [OF b n] b show ?thesis by simp
qed


text \<open>The heap after pipeline 0 has registered the stores \<open>''s''\<close> and \<open>''t''\<close>.\<close>

definition registered_heap :: "(ref dict, string) heap" where
  "registered_heap =
     run_operations canals_add_component 0
       [AddDocumentStore ''s'' 0, AddDocumentStore ''t'' 2] sample_heap"

lemma registered_heap_component:
  "components_h registered_heap 0 =
     \<lparr>aware = True, document_store = None, document_store_name = None\<rparr>"
  by (simp add: registered_heap_def run_defs)

lemma bound_heap_registered:
  "add_component canals_add_component 0 ''a'' 0 (Some ''s'') registered_heap = (Inr (), bound_heap)"
proof -
  have "fst (add_component canals_add_component 0 ''a'' 0 (Some ''s'') registered_heap) = Inr ()"
    by (simp add: registered_heap_def run_defs)
  moreover have "snd (add_component canals_add_component 0 ''a'' 0 (Some ''s'') registered_heap)
      = bound_heap"
    by (simp add: registered_heap_def bound_heap_def)
  ultimately show ?thesis by (simp add: prod_eq_iff)
qed

theorem binding_kept_witness:
  "aware (components_h registered_heap 0) \<and>
   document_store (components_h registered_heap 0) = None \<and>
   add_component canals_add_component 0 ''a'' 0 (Some ''s'') registered_heap = (Inr (), bound_heap) \<and>
   list_all (keeps_binding ''a'' ''s'')
     [AddDocumentStore ''t'' 1, AddComponent ''b'' 1 (Some ''t''), AddComponent ''c'' 2 None] \<and>
   bound_symmetrically 0 ''a'' 0 bound_heap \<and>
   bound_symmetrically 0 ''a'' 0
     (run_operations canals_add_component 0
        [AddDocumentStore ''t'' 1, AddComponent ''b'' 1 (Some ''t''), AddComponent ''c'' 2 None]
        bound_heap)"
proof -
  have 1: "aware (components_h registered_heap 0)"
    "document_store (components_h registered_heap 0) = None"
    by (simp_all add: registered_heap_component)
  have 2: "list_all (keeps_binding ''a'' ''s'')
     [AddDocumentStore ''t'' 1, AddComponent ''b'' 1 (Some ''t''), AddComponent ''c'' 2 None]"
    by simp
  from binding_kept [OF bound_heap_registered 1 2] 1 2 bound_heap_registered
  show ?thesis by simp
qed

theorem reregistered_store_breaks_binding:
  "bound_symmetrically 0 ''a'' 0 bound_heap \<and>
   fst (add_document_store 0 ''s'' 1 bound_heap) = Inr () \<and>
   get_document_store 0 ''s''
     (run_operations canals_add_component 0 [AddDocumentStore ''s'' 1] bound_heap) = Inr 1 \<and>
   document_store
     (components_h (run_operations canals_add_component 0 [AddDocumentStore ''s'' 1] bound_heap) 0)
     = Some 0 \<and>
   \<not> bound_symmetrically 0 ''a'' 0
       (run_operations canals_add_component 0 [AddDocumentStore ''s'' 1] bound_heap)"
  by (simp add: bound_symmetrically_def add_document_store_def get_document_store_def
      bound_heap_pipeline bound_heap_dicts bound_heap_components bound_heap_stores
      sample_heap_def)

end
